theory Spec2Isabelle
  imports Main
begin

section \<open>User data initialization service\<close>

text \<open>
  A model of \<open>UserDataInitializationService\<close>. The service is written with
  \<open>async\<close> functions on a single-threaded event loop: a function body runs without
  interruption up to its next \<open>await\<close>, and is resumed later, when the awaited promise
  has settled. Each uninterrupted segment of the source is one function of the model;
  the event loop is the list of events that \<open>run\<close> consumes, so that every interleaving
  of calls and resumptions is one event list.
\<close>

subsection \<open>Data\<close>

datatype SyncResource = Settings | Keybindings | Snippets | GlobalState | Extensions

datatype StorageScope = GLOBAL | WORKSPACE

type_synonym error = string
type_synonym uri = string
type_synonym userData = string

text \<open>The two fields of \<open>environmentService.options\<close> that the service reads.\<close>

record options =
  enableSyncByDefault :: "bool option"
  credentialsProvider :: "unit option"

text \<open>The entry of the product configuration under \<open>CONFIGURATION_SYNC_STORE_KEY\<close>.\<close>

record store =
  url :: string

text \<open>What \<open>getCurrentAuthenticationSessionInfo\<close> resolves to, when it is defined.\<close>

record authSession =
  accessToken :: string
  providerId :: string

text \<open>A \<open>UserDataSyncStoreClient\<close> after \<open>setAuthToken\<close>.\<close>

record client =
  endpoint :: uri
  token :: string
  authProvider :: string

text \<open>
  What the services answer when asked; it may change between two segments
  (\<open>storageService.isNew\<close>, the options, the product configuration).
\<close>

record services =
  envOptions :: "options option"
  isNew :: "StorageScope \<Rightarrow> bool"
  syncStore :: "store option"

text \<open>
  What is fixed for the process: the constant \<open>isWeb\<close>, and the three imported
  operations that build the client: \<open>URI.parse\<close>, the constructor of
  \<open>UserDataSyncStoreClient\<close> and its \<open>setAuthToken\<close>. They are parameters here,
  and each may throw (\<open>Some e\<close> for the two that return nothing).
\<close>

record platform =
  isWeb :: bool
  URI_parse :: "string \<Rightarrow> error + uri"
  newUserDataSyncStoreClient :: "uri \<Rightarrow> error option"
  setAuthToken :: "string \<Rightarrow> string \<Rightarrow> error option"

text \<open>
  An instantiation service, as far as \<open>createInstance(ExtensionsInitializer)\<close> goes:
  \<open>Some e\<close> when the call throws \<open>e\<close>.
\<close>

datatype instantiationService = InstantiationService (createInstance: "error option")

datatype initializer =
    SettingsInitializer
  | KeybindingsInitializer
  | SnippetsInitializer
  | GlobalStateInitializer
  | ExtensionsInitializer

datatype skipReason =
    Desktop
  | SyncNotEnabledByDefault
  | ApplicationOpenedBefore
  | WorkspaceOpenedBefore
  | SyncServiceNotProvided
  | CredentialsProviderNotProvided
  | AuthenticationSessionNotSet

text \<open>The calls of \<open>logService\<close>: \<open>trace\<close>, \<open>info\<close> and \<open>error\<close>, by message.\<close>

datatype logEntry =
    TraceSkipping skipReason
  | TraceInitializing SyncResource
  | InfoInitializedAlready SyncResource
  | InfoInitialized SyncResource
  | InfoErrorWhileInitializing SyncResource
  | LogError error

text \<open>What the connection builder reads or calls, in the order it does so.\<close>

datatype probe =
    ReadIsWeb
  | ReadEnableSyncByDefault
  | CallIsNew StorageScope
  | ReadSyncStore
  | ReadCredentialsProvider
  | CallGetAuthenticationSession

text \<open>
  The field \<open>_userDataSyncStoreClientPromise\<close>: not assigned yet, or a promise. The
  only \<open>await\<close> of the builder is the one of the authentication session, so a pending
  promise is the builder suspended there, holding its \<open>userDataSyncStore\<close>.
\<close>

datatype clientPromise =
    Unset
  | PendingAuth store
  | Fulfilled "client option"
  | Rejected error

text \<open>
  One callback of \<open>syncResources.map\<close>: suspended at \<open>await read\<close> (holding its
  initializer), suspended at \<open>await initializer.initialize\<close>, or returned.
\<close>

datatype phase = AwaitRead initializer | AwaitApply | Finished

text \<open>
  One call of \<open>initialize\<close>: suspended at the \<open>await\<close> of the client promise,
  suspended at \<open>await Promise.all\<close>, or settled before reaching it.
\<close>

datatype task =
    AwaitClient "SyncResource list" "instantiationService option"
  | AwaitAll "(SyncResource \<times> phase) list"
  | Settled "error + unit"

text \<open>
  The service with its surroundings: the fields \<open>initialized\<close> and
  \<open>_userDataSyncStoreClientPromise\<close>, the calls of \<open>initialize\<close> made so far, and
  what the service did to its collaborators: the log, the reads of the builder, the calls
  of \<open>userDataSyncStoreClient.read\<close> and of \<open>initializer.initialize\<close> by resource,
  and the number of times the body of the builder was entered.
\<close>

record state =
  world :: services
  initialized :: "SyncResource list"
  userDataSyncStoreClientPromise :: clientPromise
  tasks :: "task list"
  logged :: "logEntry list"
  probes :: "probe list"
  reads :: "SyncResource list"
  applies :: "SyncResource list"
  builderRuns :: nat

datatype entryPoint =
    InitializeRequiredResources
  | InitializeOtherResources
  | InitializeExtensions "instantiationService option"

text \<open>
  The events of the loop: the services change, a caller enters the service, the
  authentication promise settles, a call of \<open>initialize\<close> resumes after the client
  promise has settled, and the read or the apply of callback \<open>i\<close> of call \<open>tid\<close>
  settles. A settling event carries the outcome, \<open>Inl\<close> for a rejection. Every
  collaborator answers through its promise: a collaborator that throws at the call lands
  in the same \<open>catch\<close> as one that rejects.
\<close>

datatype event =
    World services
  | Call entryPoint
  | AuthSettled "error + authSession option"
  | Resume nat
  | ReadSettled nat nat "error + userData"
  | ApplySettled nat nat "error + unit"

definition init :: "services \<Rightarrow> state" where
  "init w = \<lparr>world = w, initialized = [], userDataSyncStoreClientPromise = Unset,
             tasks = [], logged = [], probes = [], reads = [], applies = [],
             builderRuns = 0\<rparr>"

subsection \<open>The connection builder\<close>

definition probe :: "probe \<Rightarrow> state \<Rightarrow> state" where
  "probe p s = s\<lparr>probes := probes s @ [p]\<rparr>"

text \<open>A \<open>trace\<close> of the reason followed by \<open>return\<close>: the promise is fulfilled with \<open>undefined\<close>.\<close>

definition skip :: "skipReason \<Rightarrow> state \<Rightarrow> state" where
  "skip r s = s\<lparr>logged := logged s @ [TraceSkipping r],
                 userDataSyncStoreClientPromise := Fulfilled None\<rparr>"

text \<open>\<open>options?.f\<close>: \<open>undefined\<close> when \<open>options\<close> is.\<close>

definition optional :: "options option \<Rightarrow> (options \<Rightarrow> 'a option) \<Rightarrow> 'a option" where
  "optional opts f = (case opts of None \<Rightarrow> None | Some opt \<Rightarrow> f opt)"

text \<open>
  The body of the \<open>async\<close> arrow function of \<open>createUserDataSyncStoreClient\<close>, up to
  its \<open>await\<close>. What it reads (\<open>isNew\<close>, the options, the product
  configuration) is taken to answer with a value; none of these reads is inside a
  \<open>try\<close>.
\<close>

definition startBuilder :: "platform \<Rightarrow> state \<Rightarrow> state" where
  "startBuilder P s =
    (let w = world s;
         s1 = probe ReadIsWeb (s\<lparr>builderRuns := Suc (builderRuns s)\<rparr>)
     in if \<not> isWeb P then skip Desktop s1 else
     let s2 = probe ReadEnableSyncByDefault s1
     in if optional (envOptions w) enableSyncByDefault \<noteq> Some True
        then skip SyncNotEnabledByDefault s2 else
     let s3 = probe (CallIsNew GLOBAL) s2
     in if \<not> isNew w GLOBAL then skip ApplicationOpenedBefore s3 else
     let s4 = probe (CallIsNew WORKSPACE) s3
     in if \<not> isNew w WORKSPACE then skip WorkspaceOpenedBefore s4 else
     let s5 = probe ReadSyncStore s4
     in case syncStore w of
          None \<Rightarrow> skip SyncServiceNotProvided s5
        | Some userDataSyncStore \<Rightarrow>
     let s6 = probe ReadCredentialsProvider s5
     in if optional (envOptions w) credentialsProvider = None
        then skip CredentialsProviderNotProvided s6 else
     (probe CallGetAuthenticationSession s6)
        \<lparr>userDataSyncStoreClientPromise := PendingAuth userDataSyncStore\<rparr>)"

text \<open>
  The last three statements of the body: the endpoint is parsed, the client constructed
  and the token set. They are outside the \<open>try\<close>: what one of them throws is thrown
  by the body.
\<close>

definition buildClient :: "platform \<Rightarrow> store \<Rightarrow> authSession \<Rightarrow> error + client" where
  "buildClient P userDataSyncStore authenticationSession =
    (case URI_parse P (url userDataSyncStore) of
       Inl e \<Rightarrow> Inl e
     | Inr u \<Rightarrow>
         (case newUserDataSyncStoreClient P u of
            Some e \<Rightarrow> Inl e
          | None \<Rightarrow>
              (case setAuthToken P (accessToken authenticationSession)
                      (providerId authenticationSession) of
                 Some e \<Rightarrow> Inl e
               | None \<Rightarrow> Inr \<lparr>endpoint = u, token = accessToken authenticationSession,
                                authProvider = providerId authenticationSession\<rparr>)))"

text \<open>
  The rest of the body, from the settling of the authentication promise: a rejection is
  caught and logged; without a session the builder returns \<open>undefined\<close>; otherwise it
  builds the client, and a throw there rejects the promise.
\<close>

definition authSettled :: "platform \<Rightarrow> error + authSession option \<Rightarrow> state \<Rightarrow> state" where
  "authSettled P r s =
    (case userDataSyncStoreClientPromise s of
       PendingAuth userDataSyncStore \<Rightarrow>
         (let s1 = (case r of Inl e \<Rightarrow> s\<lparr>logged := logged s @ [LogError e]\<rparr> | Inr _ \<Rightarrow> s);
              authenticationSession = (case r of Inl _ \<Rightarrow> None | Inr a \<Rightarrow> a)
          in case authenticationSession of
               None \<Rightarrow> skip AuthenticationSessionNotSet s1
             | Some a \<Rightarrow>
                 (case buildClient P userDataSyncStore a of
                    Inl e \<Rightarrow> s1\<lparr>userDataSyncStoreClientPromise := Rejected e\<rparr>
                  | Inr c \<Rightarrow> s1\<lparr>userDataSyncStoreClientPromise := Fulfilled (Some c)\<rparr>))
     | _ \<Rightarrow> s)"

definition createUserDataSyncStoreClient :: "platform \<Rightarrow> state \<Rightarrow> state" where
  "createUserDataSyncStoreClient P s =
    (case userDataSyncStoreClientPromise s of Unset \<Rightarrow> startBuilder P s | _ \<Rightarrow> s)"

subsection \<open>The dispatcher\<close>

fun createSyncResourceInitializer ::
  "SyncResource \<Rightarrow> instantiationService option \<Rightarrow> error + initializer" where
  "createSyncResourceInitializer Settings _ = Inr SettingsInitializer"
| "createSyncResourceInitializer Keybindings _ = Inr KeybindingsInitializer"
| "createSyncResourceInitializer Snippets _ = Inr SnippetsInitializer"
| "createSyncResourceInitializer GlobalState _ = Inr GlobalStateInitializer"
| "createSyncResourceInitializer Extensions None =
     Inl ''Instantiation Service is required to initialize extension''"
| "createSyncResourceInitializer Extensions (Some instantiationService) =
     (case createInstance instantiationService of
        Some e \<Rightarrow> Inl e
      | None \<Rightarrow> Inr ExtensionsInitializer)"

text \<open>The \<open>catch\<close> block of the callback.\<close>

definition catchError :: "SyncResource \<Rightarrow> error \<Rightarrow> state \<Rightarrow> state" where
  "catchError syncResource e s =
     s\<lparr>logged := logged s @ [InfoErrorWhileInitializing syncResource, LogError e]\<rparr>"

text \<open>
  The \<open>try\<close> block of the callback up to its first \<open>await\<close>; \<open>Inl\<close> is a throw.
  The call of \<open>read\<close> is made here, before the callback suspends.
\<close>

definition tryBody ::
  "instantiationService option \<Rightarrow> SyncResource \<Rightarrow> state \<Rightarrow> state \<times> (error + phase)" where
  "tryBody instantiationService syncResource s =
    (if syncResource \<in> set (initialized s)
     then (s\<lparr>logged := logged s @ [InfoInitializedAlready syncResource]\<rparr>, Inr Finished)
     else
       let s1 = s\<lparr>initialized := initialized s @ [syncResource],
                  logged := logged s @ [TraceInitializing syncResource]\<rparr>
       in case createSyncResourceInitializer syncResource instantiationService of
            Inl e \<Rightarrow> (s1, Inl e)
          | Inr i \<Rightarrow> (s1\<lparr>reads := reads s1 @ [syncResource]\<rparr>, Inr (AwaitRead i)))"

definition callback ::
  "instantiationService option \<Rightarrow> SyncResource \<Rightarrow> state \<Rightarrow> state \<times> phase" where
  "callback instantiationService syncResource s =
    (case tryBody instantiationService syncResource s of
       (s1, Inl e) \<Rightarrow> (catchError syncResource e s1, Finished)
     | (s1, Inr ph) \<Rightarrow> (s1, ph))"

text \<open>\<open>syncResources.map(callback)\<close>: the callbacks start in the order of the array.\<close>

fun mapResources ::
  "instantiationService option \<Rightarrow> SyncResource list \<Rightarrow> state
     \<Rightarrow> state \<times> (SyncResource \<times> phase) list" where
  "mapResources instantiationService [] s = (s, [])"
| "mapResources instantiationService (r # rs) s =
     (case callback instantiationService r s of
        (s1, ph) \<Rightarrow>
          (case mapResources instantiationService rs s1 of
             (s2, subs) \<Rightarrow> (s2, (r, ph) # subs)))"

fun batch :: "entryPoint \<Rightarrow> SyncResource list \<times> instantiationService option" where
  "batch InitializeRequiredResources = ([Settings, GlobalState], None)"
| "batch InitializeOtherResources = ([Keybindings, Snippets], None)"
| "batch (InitializeExtensions instantiationService) = ([Extensions], instantiationService)"

text \<open>
  An entry point calls \<open>initialize\<close>, which calls the builder and suspends at the
  \<open>await\<close> of its promise.
\<close>

definition call :: "platform \<Rightarrow> entryPoint \<Rightarrow> state \<Rightarrow> state" where
  "call P ep s =
    (let s1 = createUserDataSyncStoreClient P s
     in s1\<lparr>tasks := tasks s1 @ [AwaitClient (fst (batch ep)) (snd (batch ep))]\<rparr>)"

text \<open>
  \<open>initialize\<close> from the \<open>await\<close> of the client promise on: a rejected promise throws
  out of \<open>initialize\<close>, an absent client returns, a client starts the callbacks.
\<close>

definition resume :: "nat \<Rightarrow> state \<Rightarrow> state" where
  "resume tid s =
    (if tid < length (tasks s) then
       (case tasks s ! tid of
          AwaitClient syncResources instantiationService \<Rightarrow>
            (case userDataSyncStoreClientPromise s of
               Rejected e \<Rightarrow> s\<lparr>tasks := (tasks s)[tid := Settled (Inl e)]\<rparr>
             | Fulfilled None \<Rightarrow> s\<lparr>tasks := (tasks s)[tid := Settled (Inr ())]\<rparr>
             | Fulfilled (Some c) \<Rightarrow>
                 (case mapResources instantiationService syncResources s of
                    (s1, subs) \<Rightarrow> s1\<lparr>tasks := (tasks s1)[tid := AwaitAll subs]\<rparr>)
             | _ \<Rightarrow> s)
        | _ \<Rightarrow> s)
     else s)"

text \<open>
  The callback from the settling of \<open>read\<close>: a rejection goes to the \<open>catch\<close>;
  otherwise \<open>initializer.initialize(userData)\<close> is called and awaited.
\<close>

definition readSettled :: "nat \<Rightarrow> nat \<Rightarrow> error + userData \<Rightarrow> state \<Rightarrow> state" where
  "readSettled tid i r s =
    (if tid < length (tasks s) then
       (case tasks s ! tid of
          AwaitAll subs \<Rightarrow>
            (if i < length subs then
               (case subs ! i of
                  (syncResource, AwaitRead initializer) \<Rightarrow>
                    (case r of
                       Inl e \<Rightarrow> (catchError syncResource e s)
                          \<lparr>tasks := (tasks s)[tid := AwaitAll (subs[i := (syncResource, Finished)])]\<rparr>
                     | Inr userData \<Rightarrow> s
                          \<lparr>applies := applies s @ [syncResource],
                           tasks := (tasks s)[tid := AwaitAll (subs[i := (syncResource, AwaitApply)])]\<rparr>)
                | _ \<Rightarrow> s)
             else s)
        | _ \<Rightarrow> s)
     else s)"

text \<open>The callback from the settling of \<open>initializer.initialize\<close>.\<close>

definition applySettled :: "nat \<Rightarrow> nat \<Rightarrow> error + unit \<Rightarrow> state \<Rightarrow> state" where
  "applySettled tid i r s =
    (if tid < length (tasks s) then
       (case tasks s ! tid of
          AwaitAll subs \<Rightarrow>
            (if i < length subs then
               (case subs ! i of
                  (syncResource, AwaitApply) \<Rightarrow>
                    (case r of
                       Inl e \<Rightarrow> (catchError syncResource e s)
                          \<lparr>tasks := (tasks s)[tid := AwaitAll (subs[i := (syncResource, Finished)])]\<rparr>
                     | Inr _ \<Rightarrow> s
                          \<lparr>logged := logged s @ [InfoInitialized syncResource],
                           tasks := (tasks s)[tid := AwaitAll (subs[i := (syncResource, Finished)])]\<rparr>)
                | _ \<Rightarrow> s)
             else s)
        | _ \<Rightarrow> s)
     else s)"

subsection \<open>The event loop\<close>

text \<open>
  One event. An event that finds nothing to resume (no such call, a callback that is
  not waiting for it, a promise that has not settled) leaves the state as it is.
\<close>

fun step :: "platform \<Rightarrow> event \<Rightarrow> state \<Rightarrow> state" where
  "step P (World w) s = s\<lparr>world := w\<rparr>"
| "step P (Call ep) s = call P ep s"
| "step P (AuthSettled r) s = authSettled P r s"
| "step P (Resume tid) s = resume tid s"
| "step P (ReadSettled tid i r) s = readSettled tid i r s"
| "step P (ApplySettled tid i r) s = applySettled tid i r s"

fun run :: "platform \<Rightarrow> event list \<Rightarrow> state \<Rightarrow> state" where
  "run P [] s = s"
| "run P (e # es) s = run P es (step P e s)"

text \<open>
  What the caller of \<open>initialize\<close> sees: nothing yet, a return, or an error. The
  callbacks never reject (their \<open>catch\<close> covers the whole body), so \<open>Promise.all\<close>
  is fulfilled once all of them have returned.
\<close>

fun allFinished :: "(SyncResource \<times> phase) list \<Rightarrow> bool" where
  "allFinished [] = True"
| "allFinished ((r, ph) # subs) = (ph = Finished \<and> allFinished subs)"

fun taskOutcome :: "task \<Rightarrow> (error + unit) option" where
  "taskOutcome (AwaitClient _ _) = None"
| "taskOutcome (AwaitAll subs) = (if allFinished subs then Some (Inr ()) else None)"
| "taskOutcome (Settled r) = Some r"

subsection \<open>Invariants\<close>

text \<open>
  The reads are guarded by the \<open>initialized\<close> array: both are free of duplicates,
  and a resource that has been read is in the array.
\<close>

definition guarded :: "state \<Rightarrow> bool" where
  "guarded s = (distinct (initialized s) \<and> distinct (reads s)
                 \<and> set (reads s) \<subseteq> set (initialized s))"

text \<open>
  The builder ran at most once: before the field is assigned nothing of it has run;
  afterwards its body was entered once and asked for a session at most once.
\<close>

fun settled :: "clientPromise \<Rightarrow> bool" where
  "settled Unset = False"
| "settled (PendingAuth _) = False"
| "settled (Fulfilled _) = True"
| "settled (Rejected _) = True"

definition builtOnce :: "state \<Rightarrow> bool" where
  "builtOnce s =
     (if userDataSyncStoreClientPromise s = Unset
      then builderRuns s = 0 \<and> probes s = []
      else builderRuns s = 1 \<and> count_list (probes s) CallGetAuthenticationSession \<le> 1)"

text \<open>No read without a client: as long as the promise holds no client, nothing was read.\<close>

fun hasClient :: "clientPromise \<Rightarrow> bool" where
  "hasClient (Fulfilled (Some c)) = True"
| "hasClient _ = False"

definition readsNeedClient :: "state \<Rightarrow> bool" where
  "readsNeedClient s = (hasClient (userDataSyncStoreClientPromise s) \<or> reads s = [])"

text \<open>
  The checks of the builder as the specification lists them: in order, each with what it
  reads, whether it passes, and the reason it gives when it fails. \<open>spec_shortCircuit\<close>
  evaluates such a chain up to its first failing check.
\<close>

definition spec_gateChain :: "platform \<Rightarrow> services \<Rightarrow> (probe \<times> bool \<times> skipReason) list" where
  "spec_gateChain P w =
     [(ReadIsWeb, isWeb P, Desktop),
      (ReadEnableSyncByDefault, optional (envOptions w) enableSyncByDefault = Some True,
         SyncNotEnabledByDefault),
      (CallIsNew GLOBAL, isNew w GLOBAL, ApplicationOpenedBefore),
      (CallIsNew WORKSPACE, isNew w WORKSPACE, WorkspaceOpenedBefore),
      (ReadSyncStore, syncStore w \<noteq> None, SyncServiceNotProvided),
      (ReadCredentialsProvider, optional (envOptions w) credentialsProvider \<noteq> None,
         CredentialsProviderNotProvided)]"

fun spec_shortCircuit :: "(probe \<times> bool \<times> skipReason) list \<Rightarrow> probe list \<times> skipReason option" where
  "spec_shortCircuit [] = ([], None)"
| "spec_shortCircuit ((p, ok, r) # gs) =
     (if ok then (p # fst (spec_shortCircuit gs), snd (spec_shortCircuit gs)) else ([p], Some r))"

fun spec_allPass :: "(probe \<times> bool \<times> skipReason) list \<Rightarrow> bool" where
  "spec_allPass [] = True"
| "spec_allPass ((p, ok, r) # gs) = (ok \<and> spec_allPass gs)"


text \<open>
  Where an error of \<open>initialize\<close> comes from: a call that ended with an error got it
  from the rejected client promise.
\<close>

definition rejectionsTraced :: "state \<Rightarrow> bool" where
  "rejectionsTraced s =
     (\<forall>t \<in> set (tasks s). \<forall>e. taskOutcome t = Some (Inl e) \<longrightarrow>
            userDataSyncStoreClientPromise s = Rejected e)"

text \<open>
  Events other than a call of \<open>initializeExtensions\<close> with an instantiation service;
  while only those happen, \<open>Extensions\<close> is not read.
\<close>

fun noCapability :: "event \<Rightarrow> bool" where
  "noCapability (Call (InitializeExtensions (Some i))) = False"
| "noCapability _ = True"

definition extensionsUnread :: "state \<Rightarrow> bool" where
  "extensionsUnread s =
     (Extensions \<notin> set (reads s)
      \<and> (\<forall>t \<in> set (tasks s). \<forall>rs i. t = AwaitClient rs (Some i) \<longrightarrow> Extensions \<notin> set rs))"

text \<open>
  The callbacks that are still suspended, counted by resource: over one call and over all
  calls. At most one callback is ever suspended for a resource, and only for a resource
  that is in \<open>initialized\<close>; a resource that is in \<open>initialized\<close> with no
  suspended callback is quiet: nothing will be read or applied for it again.
\<close>

fun liveSub :: "SyncResource \<Rightarrow> SyncResource \<times> phase \<Rightarrow> nat" where
  "liveSub k (r, ph) = (if r = k \<and> ph \<noteq> Finished then 1 else 0)"

fun liveIn :: "SyncResource \<Rightarrow> task \<Rightarrow> nat" where
  "liveIn k (AwaitAll subs) = sum_list (map (liveSub k) subs)"
| "liveIn k _ = 0"

definition liveTasks :: "SyncResource \<Rightarrow> task list \<Rightarrow> nat" where
  "liveTasks k ts = sum_list (map (liveIn k) ts)"

definition tracked :: "state \<Rightarrow> bool" where
  "tracked s = (\<forall>k. liveTasks k (tasks s) \<le> 1
      \<and> (k \<notin> set (initialized s) \<longrightarrow> liveTasks k (tasks s) = 0 \<and> k \<notin> set (applies s)))"

definition quiet :: "SyncResource \<Rightarrow> state \<Rightarrow> bool" where
  "quiet k s = (k \<in> set (initialized s) \<and> liveTasks k (tasks s) = 0)"

text \<open>
  Events that do not settle callback \<open>j\<close> of call \<open>tid\<close>; and one state growing
  into another: nothing that was read, applied or logged is taken back.
\<close>

fun elsewhere :: "nat \<Rightarrow> nat \<Rightarrow> event \<Rightarrow> bool" where
  "elsewhere tid j (ReadSettled t i r) = (\<not> (t = tid \<and> i = j))"
| "elsewhere tid j (ApplySettled t i r) = (\<not> (t = tid \<and> i = j))"
| "elsewhere tid j _ = True"

definition grows :: "state \<Rightarrow> state \<Rightarrow> bool" where
  "grows s s' = (set (reads s) \<subseteq> set (reads s') \<and> set (applies s) \<subseteq> set (applies s')
                  \<and> set (logged s) \<subseteq> set (logged s'))"


text \<open>
  Events that neither call the service nor resume a call; and a state in which the four
  resources of the two plain entry points are initialized and \<open>Extensions\<close> can only
  fail: nothing more will be read.
\<close>

fun background :: "event \<Rightarrow> bool" where
  "background (World w) = True"
| "background (ReadSettled t i r) = True"
| "background (ApplySettled t i r) = True"
| "background _ = False"

definition seeded :: "state \<Rightarrow> bool" where
  "seeded s = (extensionsUnread s
     \<and> set [Settings, GlobalState, Keybindings, Snippets] \<subseteq> set (initialized s))"

text \<open>
  Every initialized resource other than \<open>Extensions\<close> has been read (only the
  initializer of \<open>Extensions\<close> can fail to build); and the events other than the
  settling of the authentication.
\<close>

definition readComplete :: "state \<Rightarrow> bool" where
  "readComplete s = (\<forall>k \<in> set (initialized s). k \<noteq> Extensions \<longrightarrow> k \<in> set (reads s))"

fun notAuth :: "event \<Rightarrow> bool" where
  "notAuth (AuthSettled r) = False"
| "notAuth _ = True"

subsection \<open>Sample inputs\<close>

text \<open>
  Two web platforms on which the client constructor and \<open>setAuthToken\<close> return:
  one whose \<open>URI.parse\<close> accepts every string, and one whose \<open>URI.parse\<close> throws
  on a space before the first colon and accepts every other string; services of a fresh web session in which every check of the builder passes,
  the same with an endpoint whose scheme has a space, and the same with a profile that
  was opened before.
\<close>

definition webPlatform :: platform where
  "webPlatform =
     \<lparr>isWeb = True, URI_parse = (\<lambda>u. Inr u),
      newUserDataSyncStoreClient = (\<lambda>u. None), setAuthToken = (\<lambda>t p. None)\<rparr>"

definition strictPlatform :: platform where
  "strictPlatform =
     \<lparr>isWeb = True,
      URI_parse = (\<lambda>u. if CHR '' '' \<in> set (takeWhile (\<lambda>c. c \<noteq> CHR '':'') u)
                       then Inl ''[UriError]: Scheme contains illegal characters.''
                       else Inr u),
      newUserDataSyncStoreClient = (\<lambda>u. None), setAuthToken = (\<lambda>t p. None)\<rparr>"

definition freshServices :: services where
  "freshServices =
     \<lparr>envOptions = Some \<lparr>enableSyncByDefault = Some True, credentialsProvider = Some ()\<rparr>,
      isNew = (\<lambda>scope. True),
      syncStore = Some \<lparr>url = ''https://sync.example''\<rparr>\<rparr>"

definition misconfiguredServices :: services where
  "misconfiguredServices =
     \<lparr>envOptions = Some \<lparr>enableSyncByDefault = Some True, credentialsProvider = Some ()\<rparr>,
      isNew = (\<lambda>scope. True),
      syncStore = Some \<lparr>url = ''sync store://example''\<rparr>\<rparr>"

definition usedServices :: services where
  "usedServices =
     \<lparr>envOptions = Some \<lparr>enableSyncByDefault = Some True, credentialsProvider = Some ()\<rparr>,
      isNew = (\<lambda>scope. scope = WORKSPACE),
      syncStore = Some \<lparr>url = ''https://sync.example''\<rparr>\<rparr>"

definition aSession :: authSession where
  "aSession = \<lparr>accessToken = ''token'', providerId = ''provider''\<rparr>"

section \<open>Properties\<close>

lemmas sample_defs =
  webPlatform_def strictPlatform_def freshServices_def misconfiguredServices_def
  usedServices_def aSession_def

lemmas segment_defs =
  init_def call_def createUserDataSyncStoreClient_def startBuilder_def probe_def skip_def
  optional_def buildClient_def authSettled_def resume_def readSettled_def applySettled_def callback_def
  tryBody_def catchError_def


subsection \<open>What each segment leaves alone\<close>

lemma probe_fields:
  "world (probe p s) = world s" "initialized (probe p s) = initialized s"
  "userDataSyncStoreClientPromise (probe p s) = userDataSyncStoreClientPromise s"
  "tasks (probe p s) = tasks s" "logged (probe p s) = logged s"
  "probes (probe p s) = probes s @ [p]" "reads (probe p s) = reads s"
  "applies (probe p s) = applies s" "builderRuns (probe p s) = builderRuns s"
  by (simp_all add: probe_def)

lemma skip_fields:
  "world (skip r s) = world s" "initialized (skip r s) = initialized s"
  "userDataSyncStoreClientPromise (skip r s) = Fulfilled None"
  "tasks (skip r s) = tasks s" "logged (skip r s) = logged s @ [TraceSkipping r]"
  "probes (skip r s) = probes s" "reads (skip r s) = reads s"
  "applies (skip r s) = applies s" "builderRuns (skip r s) = builderRuns s"
  by (simp_all add: skip_def)

lemma startBuilder_frame:
  "world (startBuilder P s) = world s" "initialized (startBuilder P s) = initialized s"
  "tasks (startBuilder P s) = tasks s" "reads (startBuilder P s) = reads s"
  "applies (startBuilder P s) = applies s"
  "builderRuns (startBuilder P s) = Suc (builderRuns s)"
  by (simp_all add: startBuilder_def Let_def probe_fields skip_fields split: option.split)

lemma authSettled_frame:
  "world (authSettled P r s) = world s" "initialized (authSettled P r s) = initialized s"
  "tasks (authSettled P r s) = tasks s" "reads (authSettled P r s) = reads s"
  "applies (authSettled P r s) = applies s" "probes (authSettled P r s) = probes s"
  "builderRuns (authSettled P r s) = builderRuns s"
  by (simp_all add: authSettled_def Let_def skip_fields
      split: clientPromise.split option.split sum.split)

lemma create_frame:
  "world (createUserDataSyncStoreClient P s) = world s"
  "initialized (createUserDataSyncStoreClient P s) = initialized s"
  "tasks (createUserDataSyncStoreClient P s) = tasks s"
  "reads (createUserDataSyncStoreClient P s) = reads s"
  "applies (createUserDataSyncStoreClient P s) = applies s"
  by (simp_all add: createUserDataSyncStoreClient_def startBuilder_frame
      split: clientPromise.split)

lemma call_frame:
  "world (call P ep s) = world s" "initialized (call P ep s) = initialized s"
  "reads (call P ep s) = reads s" "applies (call P ep s) = applies s"
  "tasks (call P ep s) = tasks s @ [AwaitClient (fst (batch ep)) (snd (batch ep))]"
  by (simp_all add: call_def Let_def create_frame)

lemma callback_frame:
  assumes "callback i r s = (s', ph)"
  shows "world s' = world s"
    "userDataSyncStoreClientPromise s' = userDataSyncStoreClientPromise s"
    "tasks s' = tasks s" "probes s' = probes s" "applies s' = applies s"
    "builderRuns s' = builderRuns s"
  using assms
  by (auto simp: callback_def tryBody_def catchError_def Let_def split: if_splits sum.splits)

lemma mapResources_frame:
  "mapResources i rs s = (s', subs) \<Longrightarrow>
     world s' = world s \<and> userDataSyncStoreClientPromise s' = userDataSyncStoreClientPromise s
     \<and> tasks s' = tasks s \<and> probes s' = probes s \<and> applies s' = applies s
     \<and> builderRuns s' = builderRuns s \<and> length subs = length rs"
proof (induction rs arbitrary: s s' subs)
  case Nil
  then show ?case by simp
next
  case (Cons r rs)
  obtain s1 ph where c: "callback i r s = (s1, ph)" by (cases "callback i r s")
  obtain s2 subs2 where m: "mapResources i rs s1 = (s2, subs2)"
    by (cases "mapResources i rs s1")
  from Cons.prems c m have e: "s' = s2" "subs = (r, ph) # subs2" by simp_all
  from Cons.IH[OF m] callback_frame[OF c] e show ?case by simp
qed

lemma run_append: "run P (es @ fs) s = run P fs (run P es s)"
  by (induction es arbitrary: s) simp_all

subsection \<open>The reads are guarded\<close>

lemma callback_guarded:
  assumes "callback i r s = (s', ph)" "guarded s"
  shows "guarded s'"
  using assms
  by (auto simp: callback_def tryBody_def catchError_def Let_def guarded_def
      split: if_splits sum.splits)

lemma mapResources_guarded:
  "mapResources i rs s = (s', subs) \<Longrightarrow> guarded s \<Longrightarrow> guarded s'"
proof (induction rs arbitrary: s s' subs)
  case Nil
  then show ?case by simp
next
  case (Cons r rs)
  obtain s1 ph where c: "callback i r s = (s1, ph)" by (cases "callback i r s")
  obtain s2 subs2 where m: "mapResources i rs s1 = (s2, subs2)"
    by (cases "mapResources i rs s1")
  from Cons.prems c m have e: "s' = s2" by simp
  from Cons.IH[OF m callback_guarded[OF c Cons.prems(2)]] e show ?case by simp
qed

lemma resume_guarded: "guarded s \<Longrightarrow> guarded (resume tid s)"
proof -
  assume g: "guarded s"
  have m: "\<And>i rs s1 subs. mapResources i rs s = (s1, subs) \<Longrightarrow>
            guarded (s1\<lparr>tasks := (tasks s1)[tid := AwaitAll subs]\<rparr>)"
    using mapResources_guarded[OF _ g] by (simp add: guarded_def)
  show ?thesis using g m
    by (auto simp: resume_def guarded_def
        split: task.splits clientPromise.splits option.splits prod.splits)
qed

lemma step_guarded: "guarded s \<Longrightarrow> guarded (step P e s)"
proof (cases e)
  case (Resume tid)
  assume "guarded s"
  then show ?thesis using Resume by (simp add: resume_guarded)
next
  case (ReadSettled tid i r)
  assume "guarded s"
  then show ?thesis using ReadSettled
    by (auto simp: readSettled_def catchError_def guarded_def
        split: task.splits phase.splits sum.splits prod.splits)
next
  case (ApplySettled tid i r)
  assume "guarded s"
  then show ?thesis using ApplySettled
    by (auto simp: applySettled_def catchError_def guarded_def
        split: task.splits phase.splits sum.splits prod.splits)
qed (simp_all add: guarded_def call_frame authSettled_frame)

lemma run_guarded: "guarded s \<Longrightarrow> guarded (run P es s)"
  by (induction es arbitrary: s) (simp_all add: step_guarded)

lemma init_guarded: "guarded (init w)"
  by (simp add: guarded_def init_def)

lemma distinct_count_le_1: "distinct xs \<Longrightarrow> count_list xs k \<le> 1"
  by (induction xs) (auto simp: count_list_0_iff)

text \<open>
  Claim C1. Whatever the calls of the three entry points and however their segments
  interleave, \<open>read\<close> is called at most once for each resource; and a resource that has
  been read is in \<open>initialized\<close>: the callback pushes it in the segment that makes the
  call, before it suspends.
\<close>

theorem reads_at_most_once:
  "count_list (reads (run P evs (init w))) k \<le> 1
   \<and> set (reads (run P evs (init w))) \<subseteq> set (initialized (run P evs (init w)))"
  using run_guarded[OF init_guarded, of P evs w]
    distinct_count_le_1[of "reads (run P evs (init w))" k]
  by (simp add: guarded_def)

theorem reads_at_most_once_witness:
  "count_list (reads (run webPlatform
      [Call InitializeRequiredResources, Call InitializeRequiredResources,
       AuthSettled (Inr (Some aSession)), Resume 0, Resume 1] (init freshServices))) Settings = 1"
proof -
  have "Settings \<in> set (reads (run webPlatform
      [Call InitializeRequiredResources, Call InitializeRequiredResources,
       AuthSettled (Inr (Some aSession)), Resume 0, Resume 1] (init freshServices)))"
    by (simp add: sample_defs segment_defs)
  then show ?thesis
    using reads_at_most_once[of webPlatform
      "[Call InitializeRequiredResources, Call InitializeRequiredResources,
        AuthSettled (Inr (Some aSession)), Resume 0, Resume 1]" freshServices Settings]
    by (simp add: count_list_0_iff le_Suc_eq)
qed

text \<open>
  Claim C10. The array \<open>initialized\<close> never holds a resource twice, whatever the
  calls and their interleaving.
\<close>

theorem initialized_distinct: "distinct (initialized (run P evs (init w)))"
  using run_guarded[OF init_guarded, of P evs w] by (simp add: guarded_def)

theorem initialized_distinct_witness:
  "distinct (initialized (run webPlatform
      [Call InitializeRequiredResources, Call InitializeRequiredResources,
       AuthSettled (Inr (Some aSession)), Resume 0, Resume 1] (init freshServices)))
   \<and> initialized (run webPlatform
      [Call InitializeRequiredResources, Call InitializeRequiredResources,
       AuthSettled (Inr (Some aSession)), Resume 0, Resume 1] (init freshServices))
     = [Settings, GlobalState]"
  using initialized_distinct[of webPlatform
      "[Call InitializeRequiredResources, Call InitializeRequiredResources,
        AuthSettled (Inr (Some aSession)), Resume 0, Resume 1]" freshServices]
  by (simp add: sample_defs segment_defs)

subsection \<open>The connection builder runs once\<close>

lemma startBuilder_builtOnce:
  "builderRuns s = 0 \<Longrightarrow> probes s = [] \<Longrightarrow> builtOnce (startBuilder P s)"
  by (simp add: builtOnce_def startBuilder_def Let_def probe_def skip_def split: option.split)

lemma authSettled_builtOnce: "builtOnce s \<Longrightarrow> builtOnce (authSettled P r s)"
  by (auto simp: builtOnce_def authSettled_def Let_def skip_def
      split: clientPromise.splits option.splits sum.splits)

lemma resume_builder:
  "userDataSyncStoreClientPromise (resume tid s) = userDataSyncStoreClientPromise s"
  "probes (resume tid s) = probes s" "builderRuns (resume tid s) = builderRuns s"
  "world (resume tid s) = world s" "applies (resume tid s) = applies s"
  "length (tasks (resume tid s)) = length (tasks s)"
  using mapResources_frame[of _ _ s]
  by (auto simp: resume_def split: task.splits clientPromise.splits option.splits prod.splits)

lemma readSettled_frame:
  "userDataSyncStoreClientPromise (readSettled tid i r s) = userDataSyncStoreClientPromise s"
  "probes (readSettled tid i r s) = probes s" "builderRuns (readSettled tid i r s) = builderRuns s"
  "world (readSettled tid i r s) = world s" "reads (readSettled tid i r s) = reads s"
  "initialized (readSettled tid i r s) = initialized s"
  "length (tasks (readSettled tid i r s)) = length (tasks s)"
  by (auto simp: readSettled_def catchError_def
      split: task.splits phase.splits sum.splits prod.splits)

lemma applySettled_frame:
  "userDataSyncStoreClientPromise (applySettled tid i r s) = userDataSyncStoreClientPromise s"
  "probes (applySettled tid i r s) = probes s" "builderRuns (applySettled tid i r s) = builderRuns s"
  "world (applySettled tid i r s) = world s" "reads (applySettled tid i r s) = reads s"
  "initialized (applySettled tid i r s) = initialized s"
  "applies (applySettled tid i r s) = applies s"
  "length (tasks (applySettled tid i r s)) = length (tasks s)"
  by (auto simp: applySettled_def catchError_def
      split: task.splits phase.splits sum.splits prod.splits)

lemma call_builder:
  "userDataSyncStoreClientPromise (call P ep s)
     = userDataSyncStoreClientPromise (createUserDataSyncStoreClient P s)"
  "probes (call P ep s) = probes (createUserDataSyncStoreClient P s)"
  "builderRuns (call P ep s) = builderRuns (createUserDataSyncStoreClient P s)"
  "logged (call P ep s) = logged (createUserDataSyncStoreClient P s)"
  by (simp_all add: call_def Let_def)

lemma create_unset:
  "userDataSyncStoreClientPromise s = Unset \<Longrightarrow>
     createUserDataSyncStoreClient P s = startBuilder P s"
  by (simp add: createUserDataSyncStoreClient_def)

lemma create_set:
  "userDataSyncStoreClientPromise s \<noteq> Unset \<Longrightarrow> createUserDataSyncStoreClient P s = s"
  by (cases "userDataSyncStoreClientPromise s") (simp_all add: createUserDataSyncStoreClient_def)

lemma builtOnce_cong:
  "userDataSyncStoreClientPromise s' = userDataSyncStoreClientPromise s \<Longrightarrow>
   probes s' = probes s \<Longrightarrow> builderRuns s' = builderRuns s \<Longrightarrow>
   builtOnce s' = builtOnce s"
  by (simp add: builtOnce_def)

lemma call_builtOnce: "builtOnce (call P ep s) = builtOnce (createUserDataSyncStoreClient P s)"
  by (simp add: builtOnce_def call_builder)

lemma step_builtOnce: "builtOnce s \<Longrightarrow> builtOnce (step P e s)"
proof (cases e)
  case (Call ep)
  assume b: "builtOnce s"
  show ?thesis
  proof (cases "userDataSyncStoreClientPromise s = Unset")
    case True
    from b True have "builderRuns s = 0" "probes s = []"
      by (simp_all add: builtOnce_def)
    then have "builtOnce (startBuilder P s)"
      by (rule startBuilder_builtOnce)
    with True Call show ?thesis
      by (simp add: call_builtOnce create_unset)
  next
    case False
    with b Call show ?thesis
      by (simp add: call_builtOnce create_set)
  qed
qed (simp_all add: authSettled_builtOnce
      builtOnce_cong[of "resume tid s" s for tid, OF resume_builder(1-3)]
      builtOnce_cong[of "readSettled tid i r s" s for tid i r, OF readSettled_frame(1-3)]
      builtOnce_cong[of "applySettled tid i r s" s for tid i r, OF applySettled_frame(1-3)]
      builtOnce_cong[of "s\<lparr>world := w\<rparr>" s for w])

lemma run_builtOnce: "builtOnce s \<Longrightarrow> builtOnce (run P es s)"
  by (induction es arbitrary: s) (simp_all add: step_builtOnce)

lemma init_builtOnce: "builtOnce (init w)"
  by (simp add: builtOnce_def init_def)

lemma builtOnce_bounds:
  "builtOnce s \<Longrightarrow> builderRuns s \<le> 1 \<and> count_list (probes s) CallGetAuthenticationSession \<le> 1"
  by (auto simp: builtOnce_def split: if_splits)

lemma step_settled:
  assumes "settled (userDataSyncStoreClientPromise s)"
  shows "userDataSyncStoreClientPromise (step P e s) = userDataSyncStoreClientPromise s
     \<and> probes (step P e s) = probes s \<and> builderRuns (step P e s) = builderRuns s"
proof (cases e)
  case (Call ep)
  from assms have "userDataSyncStoreClientPromise s \<noteq> Unset" by auto
  with Call show ?thesis by (simp add: call_builder create_set)
next
  case (AuthSettled r)
  with assms show ?thesis
    by (cases "userDataSyncStoreClientPromise s") (simp_all add: authSettled_def)
qed (simp_all add: resume_builder readSettled_frame applySettled_frame)

lemma run_settled:
  "settled (userDataSyncStoreClientPromise s) \<Longrightarrow>
     userDataSyncStoreClientPromise (run P es s) = userDataSyncStoreClientPromise s
     \<and> probes (run P es s) = probes s \<and> builderRuns (run P es s) = builderRuns s"
proof (induction es arbitrary: s)
  case Nil
  then show ?case by simp
next
  case (Cons e es)
  from step_settled[OF Cons.prems, of P e]
  have e: "userDataSyncStoreClientPromise (step P e s) = userDataSyncStoreClientPromise s"
    "probes (step P e s) = probes s" "builderRuns (step P e s) = builderRuns s" by simp_all
  with Cons.prems have "settled (userDataSyncStoreClientPromise (step P e s))" by simp
  from Cons.IH[OF this] e show ?case by simp
qed

lemma resume_absent:
  "userDataSyncStoreClientPromise s = Fulfilled None \<Longrightarrow> reads (resume tid s) = reads s
     \<and> initialized (resume tid s) = initialized s \<and> logged (resume tid s) = logged s"
  by (simp add: resume_def split: task.splits)

lemma step_absent:
  assumes "userDataSyncStoreClientPromise s = Fulfilled None"
  shows "reads (step P e s) = reads s"
  using assms
  by (cases e) (simp_all add: call_frame authSettled_frame resume_absent readSettled_frame
      applySettled_frame)

lemma run_absent:
  "userDataSyncStoreClientPromise s = Fulfilled None \<Longrightarrow> reads (run P es s) = reads s"
proof (induction es arbitrary: s)
  case Nil
  then show ?case by simp
next
  case (Cons e es)
  then have "settled (userDataSyncStoreClientPromise s)" by simp
  from step_settled[OF this, of P e] Cons.prems
  have "userDataSyncStoreClientPromise (step P e s) = Fulfilled None" by simp
  from Cons.IH[OF this] step_absent[OF Cons.prems, of P e] show ?case by simp
qed

lemma resume_readsNeedClient: "readsNeedClient s \<Longrightarrow> readsNeedClient (resume tid s)"
proof -
  assume a: "readsNeedClient s"
  have p: "userDataSyncStoreClientPromise (resume tid s) = userDataSyncStoreClientPromise s"
    by (rule resume_builder)
  show ?thesis
  proof (cases "hasClient (userDataSyncStoreClientPromise s)")
    case True
    with p show ?thesis by (simp add: readsNeedClient_def)
  next
    case False
    then have "reads (resume tid s) = reads s"
      by (auto simp: resume_def split: task.splits clientPromise.splits option.splits)
    with a p show ?thesis by (simp add: readsNeedClient_def)
  qed
qed

lemma step_readsNeedClient: "readsNeedClient s \<Longrightarrow> readsNeedClient (step P e s)"
proof (cases e)
  case (Call ep)
  assume "readsNeedClient s"
  with Call show ?thesis
    by (cases "userDataSyncStoreClientPromise s = Unset")
       (auto simp: readsNeedClient_def call_builder call_frame create_set)
next
  case (AuthSettled r)
  assume a: "readsNeedClient s"
  show ?thesis
  proof (cases "hasClient (userDataSyncStoreClientPromise s)")
    case True
    then have "authSettled P r s = s"
      by (cases "userDataSyncStoreClientPromise s") (simp_all add: authSettled_def)
    with a AuthSettled show ?thesis by simp
  next
    case False
    with a AuthSettled show ?thesis by (simp add: readsNeedClient_def authSettled_frame)
  qed
next
  case (Resume tid)
  assume "readsNeedClient s"
  with Resume show ?thesis by (simp add: resume_readsNeedClient)
qed (simp_all add: readsNeedClient_def readSettled_frame applySettled_frame)

lemma run_readsNeedClient: "readsNeedClient s \<Longrightarrow> readsNeedClient (run P es s)"
  by (induction es arbitrary: s) (simp_all add: step_readsNeedClient)

lemma init_readsNeedClient: "readsNeedClient (init w)"
  by (simp add: readsNeedClient_def init_def)

lemma failing_check_absent:
  assumes "\<not> spec_allPass (spec_gateChain P w)"
  shows "userDataSyncStoreClientPromise (step P (Call ep) (init w)) = Fulfilled None
     \<and> reads (step P (Call ep) (init w)) = []"
proof -
  have c: "createUserDataSyncStoreClient P (init w) = startBuilder P (init w)"
    by (rule create_unset) (simp add: init_def)
  have p: "userDataSyncStoreClientPromise (startBuilder P (init w)) = Fulfilled None"
    using assms
    by (auto simp: spec_gateChain_def init_def startBuilder_def Let_def probe_def skip_def
        split: option.splits)
  have r: "reads (init w) = []" by (simp add: init_def)
  from c p r show ?thesis by (simp add: call_frame call_builder)
qed

lemma first_call_runs_chain:
  "builderRuns (step P (Call ep) (init w)) = 1"
  "probes (step P (Call ep) (init w)) =
      fst (spec_shortCircuit (spec_gateChain P w))
      @ (if spec_allPass (spec_gateChain P w) then [CallGetAuthenticationSession] else [])"
  "userDataSyncStoreClientPromise (step P (Call ep) (init w)) =
      (if spec_allPass (spec_gateChain P w)
       then (case syncStore w of Some st \<Rightarrow> PendingAuth st | None \<Rightarrow> Fulfilled None)
       else Fulfilled None)"
proof -
  have c: "createUserDataSyncStoreClient P (init w) = startBuilder P (init w)"
    by (rule create_unset) (simp add: init_def)
  have b: "builderRuns (startBuilder P (init w)) = 1"
    by (simp add: startBuilder_frame init_def)
  have p: "probes (startBuilder P (init w)) =
      fst (spec_shortCircuit (spec_gateChain P w))
      @ (if spec_allPass (spec_gateChain P w) then [CallGetAuthenticationSession] else [])"
    by (simp add: startBuilder_def Let_def probe_def skip_def spec_gateChain_def init_def
        split: option.split)
  have f: "userDataSyncStoreClientPromise (startBuilder P (init w)) =
      (if spec_allPass (spec_gateChain P w)
       then (case syncStore w of Some st \<Rightarrow> PendingAuth st | None \<Rightarrow> Fulfilled None)
       else Fulfilled None)"
    by (simp add: startBuilder_def Let_def probe_def skip_def spec_gateChain_def init_def
        split: option.split)
  from c b show "builderRuns (step P (Call ep) (init w)) = 1" by (simp add: call_builder)
  from c p show "probes (step P (Call ep) (init w)) =
      fst (spec_shortCircuit (spec_gateChain P w))
      @ (if spec_allPass (spec_gateChain P w) then [CallGetAuthenticationSession] else [])"
    by (simp add: call_builder)
  from c f show "userDataSyncStoreClientPromise (step P (Call ep) (init w)) =
      (if spec_allPass (spec_gateChain P w)
       then (case syncStore w of Some st \<Rightarrow> PendingAuth st | None \<Rightarrow> Fulfilled None)
       else Fulfilled None)"
    by (simp add: call_builder)
qed

lemma startBuilder_started: "userDataSyncStoreClientPromise (startBuilder P s) \<noteq> Unset"
  by (simp add: startBuilder_def Let_def probe_def skip_def split: option.split)

lemma call_started: "userDataSyncStoreClientPromise (step P (Call ep) s) \<noteq> Unset"
  by (cases "userDataSyncStoreClientPromise s = Unset")
     (simp_all add: call_builder create_unset create_set startBuilder_started)

lemma authSettled_started:
  "userDataSyncStoreClientPromise s \<noteq> Unset \<Longrightarrow>
     userDataSyncStoreClientPromise (authSettled P r s) \<noteq> Unset"
  by (cases "userDataSyncStoreClientPromise s")
     (auto simp: authSettled_def Let_def skip_def split: option.splits sum.splits)

lemma step_started:
  assumes "userDataSyncStoreClientPromise s \<noteq> Unset"
  shows "userDataSyncStoreClientPromise (step P ev s) \<noteq> Unset
     \<and> probes (step P ev s) = probes s \<and> builderRuns (step P ev s) = builderRuns s"
proof (cases ev)
  case (Call ep)
  with assms show ?thesis by (simp add: call_builder create_set)
next
  case (AuthSettled r)
  with assms show ?thesis by (simp add: authSettled_started authSettled_frame)
qed (use assms in \<open>simp_all add: resume_builder readSettled_frame applySettled_frame\<close>)

lemma run_started:
  "userDataSyncStoreClientPromise s \<noteq> Unset \<Longrightarrow>
     userDataSyncStoreClientPromise (run P es s) \<noteq> Unset
     \<and> probes (run P es s) = probes s \<and> builderRuns (run P es s) = builderRuns s"
proof (induction es arbitrary: s)
  case Nil
  then show ?case by simp
next
  case (Cons e es)
  from step_started[OF Cons.prems, of P e] Cons.IH[of "step P e s"] show ?case by simp
qed

lemma later_call_enqueues:
  "userDataSyncStoreClientPromise s \<noteq> Unset \<Longrightarrow>
     step P (Call ep) s = s\<lparr>tasks := tasks s @ [AwaitClient (fst (batch ep)) (snd (batch ep))]\<rparr>"
  by (simp add: call_def create_set)

lemma mapResources_kinds: "mapResources i rs s = (s', subs) \<Longrightarrow> map fst subs = rs"
proof (induction rs arbitrary: s s' subs)
  case Nil
  then show ?case by simp
next
  case (Cons r rs)
  obtain s1 ph where c: "callback i r s = (s1, ph)" by (cases "callback i r s")
  obtain s2 subs2 where m: "mapResources i rs s1 = (s2, subs2)"
    by (cases "mapResources i rs s1")
  from Cons.prems c m have e: "subs = (r, ph) # subs2" by simp
  from Cons.IH[OF m] e show ?case by simp
qed

lemma resume_receives:
  assumes "tid < length (tasks s)" "tasks s ! tid = AwaitClient rs i"
  shows "userDataSyncStoreClientPromise s = Fulfilled None \<Longrightarrow>
           step P (Resume tid) s = s\<lparr>tasks := (tasks s)[tid := Settled (Inr ())]\<rparr>"
    "userDataSyncStoreClientPromise s = Rejected e \<Longrightarrow>
           step P (Resume tid) s = s\<lparr>tasks := (tasks s)[tid := Settled (Inl e)]\<rparr>"
    "userDataSyncStoreClientPromise s = Fulfilled (Some c) \<Longrightarrow>
           \<exists>subs. tasks (step P (Resume tid) s) ! tid = AwaitAll subs \<and> map fst subs = rs"
proof -
  show "userDataSyncStoreClientPromise s = Fulfilled None \<Longrightarrow>
           step P (Resume tid) s = s\<lparr>tasks := (tasks s)[tid := Settled (Inr ())]\<rparr>"
    using assms by (simp add: resume_def)
  show "userDataSyncStoreClientPromise s = Rejected e \<Longrightarrow>
           step P (Resume tid) s = s\<lparr>tasks := (tasks s)[tid := Settled (Inl e)]\<rparr>"
    using assms by (simp add: resume_def)
  show "\<exists>subs. tasks (step P (Resume tid) s) ! tid = AwaitAll subs \<and> map fst subs = rs"
    if c: "userDataSyncStoreClientPromise s = Fulfilled (Some c)"
  proof -
    obtain s1 subs where m: "mapResources i rs s = (s1, subs)"
      by (cases "mapResources i rs s")
    from mapResources_frame[OF m] have "tasks s1 = tasks s" by simp
    with assms c m have "tasks (step P (Resume tid) s) ! tid = AwaitAll subs"
      by (simp add: resume_def)
    with mapResources_kinds[OF m] show ?thesis by blast
  qed
qed

lemma auth_outcome:
  assumes "userDataSyncStoreClientPromise s = PendingAuth st"
  shows "userDataSyncStoreClientPromise (step P (AuthSettled (Inl e)) s) = Fulfilled None"
    "userDataSyncStoreClientPromise (step P (AuthSettled (Inr None)) s) = Fulfilled None"
    "userDataSyncStoreClientPromise (step P (AuthSettled (Inr (Some a))) s)
       = (case buildClient P st a of Inl e \<Rightarrow> Rejected e | Inr c \<Rightarrow> Fulfilled (Some c))"
  using assms by (simp_all add: authSettled_def skip_def split: sum.split)

lemma no_session_no_reads:
  assumes "userDataSyncStoreClientPromise (run P evs (init w)) = PendingAuth st"
    and "r = Inl e \<or> r = Inr None"
  shows "reads (run P (evs @ AuthSettled r # evs') (init w)) = []"
proof -
  let ?s = "run P evs (init w)"
  from run_readsNeedClient[OF init_readsNeedClient, of P evs w] assms(1)
  have "reads ?s = []" by (simp add: readsNeedClient_def)
  then have r0: "reads (step P (AuthSettled r) ?s) = []" by (simp add: authSettled_frame)
  from auth_outcome(1,2)[OF assms(1), of P] assms(2)
  have "userDataSyncStoreClientPromise (step P (AuthSettled r) ?s) = Fulfilled None" by auto
  from run_absent[OF this, of P evs'] r0 show ?thesis
    by (simp add: run_append del: step.simps)
qed

text \<open>
  Claim C4. The builder is memoized in the stored promise. The first call of an entry
  point runs the checks, in their order, and asks for a session when they pass; when the
  authentication settles the builder goes on, to an absent client without a session and
  to the built client (or the rejection its building throws) with one. Over any sequence
  of events the body is entered at most once, exactly once from the first call on, and
  the session is asked for at most once. A later call only waits for the stored promise:
  it changes nothing else; when it resumes it gets what the promise holds, returns on an
  absent client, throws on a rejection, and starts its callbacks on a client, without any
  step of the builder running again. A settled promise is never changed by a later
  event. Once the client is absent no resource is ever read: so when a check fails at the
  first call, or when the authentication fails or gives no session, nothing is read
  whatever comes later (even a change of the services that would now pass every check).
\<close>

theorem connection_memoized:
  "builderRuns (run P evs (init w)) \<le> 1
   \<and> count_list (probes (run P evs (init w))) CallGetAuthenticationSession \<le> 1
   \<and> (settled (userDataSyncStoreClientPromise (run P evs (init w))) \<longrightarrow>
        userDataSyncStoreClientPromise (run P (evs @ evs') (init w))
          = userDataSyncStoreClientPromise (run P evs (init w))
        \<and> probes (run P (evs @ evs') (init w)) = probes (run P evs (init w))
        \<and> builderRuns (run P (evs @ evs') (init w)) = builderRuns (run P evs (init w)))
   \<and> (userDataSyncStoreClientPromise (run P evs (init w)) = Fulfilled None \<longrightarrow>
        reads (run P (evs @ evs') (init w)) = [])
   \<and> (\<not> spec_allPass (spec_gateChain P w) \<longrightarrow>
        reads (run P (Call ep # evs') (init w)) = [])
   \<and> builderRuns (run P (Call ep # evs') (init w)) = 1
   \<and> probes (run P (Call ep # evs') (init w)) =
        fst (spec_shortCircuit (spec_gateChain P w))
        @ (if spec_allPass (spec_gateChain P w) then [CallGetAuthenticationSession] else [])
   \<and> userDataSyncStoreClientPromise (run P [Call ep] (init w)) =
        (if spec_allPass (spec_gateChain P w)
         then (case syncStore w of Some st \<Rightarrow> PendingAuth st | None \<Rightarrow> Fulfilled None)
         else Fulfilled None)
   \<and> (userDataSyncStoreClientPromise s = PendingAuth st \<longrightarrow>
        userDataSyncStoreClientPromise (step P (AuthSettled (Inl e)) s) = Fulfilled None
        \<and> userDataSyncStoreClientPromise (step P (AuthSettled (Inr None)) s) = Fulfilled None
        \<and> userDataSyncStoreClientPromise (step P (AuthSettled (Inr (Some a))) s)
            = (case buildClient P st a of Inl e \<Rightarrow> Rejected e | Inr c \<Rightarrow> Fulfilled (Some c)))
   \<and> (userDataSyncStoreClientPromise (run P evs (init w)) = PendingAuth st \<longrightarrow>
        reads (run P (evs @ AuthSettled (Inl e) # evs') (init w)) = []
        \<and> reads (run P (evs @ AuthSettled (Inr None) # evs') (init w)) = [])
   \<and> (userDataSyncStoreClientPromise s \<noteq> Unset \<longrightarrow>
        step P (Call ep) s
          = s\<lparr>tasks := tasks s @ [AwaitClient (fst (batch ep)) (snd (batch ep))]\<rparr>)
   \<and> (tid < length (tasks s) \<and> tasks s ! tid = AwaitClient rs i \<longrightarrow>
        (userDataSyncStoreClientPromise s = Fulfilled None \<longrightarrow>
           step P (Resume tid) s = s\<lparr>tasks := (tasks s)[tid := Settled (Inr ())]\<rparr>)
        \<and> (userDataSyncStoreClientPromise s = Rejected e \<longrightarrow>
           step P (Resume tid) s = s\<lparr>tasks := (tasks s)[tid := Settled (Inl e)]\<rparr>)
        \<and> (userDataSyncStoreClientPromise s = Fulfilled (Some c) \<longrightarrow>
           (\<exists>subs. tasks (step P (Resume tid) s) ! tid = AwaitAll subs \<and> map fst subs = rs)
           \<and> userDataSyncStoreClientPromise (step P (Resume tid) s) = Fulfilled (Some c)
           \<and> probes (step P (Resume tid) s) = probes s
           \<and> builderRuns (step P (Resume tid) s) = builderRuns s))"
proof -
  let ?s = "run P evs (init w)"
  have b: "builderRuns ?s \<le> 1 \<and> count_list (probes ?s) CallGetAuthenticationSession \<le> 1"
    by (rule builtOnce_bounds[OF run_builtOnce[OF init_builtOnce]])
  have r: "userDataSyncStoreClientPromise ?s = Fulfilled None \<Longrightarrow> reads ?s = []"
    using run_readsNeedClient[OF init_readsNeedClient, of P evs w]
    by (auto simp: readsNeedClient_def)
  have c3: "settled (userDataSyncStoreClientPromise ?s) \<longrightarrow>
        userDataSyncStoreClientPromise (run P (evs @ evs') (init w))
          = userDataSyncStoreClientPromise ?s
        \<and> probes (run P (evs @ evs') (init w)) = probes ?s
        \<and> builderRuns (run P (evs @ evs') (init w)) = builderRuns ?s"
    using run_settled[of ?s P evs'] by (simp add: run_append)
  have c4: "userDataSyncStoreClientPromise ?s = Fulfilled None \<longrightarrow>
        reads (run P (evs @ evs') (init w)) = []"
    using r run_absent[of ?s P evs'] by (simp add: run_append)
  have g: "\<not> spec_allPass (spec_gateChain P w) \<longrightarrow>
        reads (run P (Call ep # evs') (init w)) = []"
    using failing_check_absent[of P w ep]
      run_absent[of "step P (Call ep) (init w)" P evs']
    by (simp del: step.simps)
  have f: "builderRuns (run P (Call ep # evs') (init w)) = 1
     \<and> probes (run P (Call ep # evs') (init w)) =
        fst (spec_shortCircuit (spec_gateChain P w))
        @ (if spec_allPass (spec_gateChain P w) then [CallGetAuthenticationSession] else [])"
    using run_started[OF call_started, where P=P and es=evs' and ?P1=P and ?ep1=ep
        and ?s1="init w"]
      first_call_runs_chain(1,2)[where P=P and ep=ep and w=w]
    by (simp del: step.simps)
  have f1: "userDataSyncStoreClientPromise (run P [Call ep] (init w)) =
        (if spec_allPass (spec_gateChain P w)
         then (case syncStore w of Some st \<Rightarrow> PendingAuth st | None \<Rightarrow> Fulfilled None)
         else Fulfilled None)"
    using first_call_runs_chain(3)[where P=P and ep=ep and w=w] by (simp del: step.simps)
  have au: "userDataSyncStoreClientPromise s = PendingAuth st \<longrightarrow>
        userDataSyncStoreClientPromise (step P (AuthSettled (Inl e)) s) = Fulfilled None
        \<and> userDataSyncStoreClientPromise (step P (AuthSettled (Inr None)) s) = Fulfilled None
        \<and> userDataSyncStoreClientPromise (step P (AuthSettled (Inr (Some a))) s)
            = (case buildClient P st a of Inl e \<Rightarrow> Rejected e | Inr c \<Rightarrow> Fulfilled (Some c))"
    using auth_outcome[where s=s and st=st and P=P] by blast
  have ns: "userDataSyncStoreClientPromise ?s = PendingAuth st \<longrightarrow>
        reads (run P (evs @ AuthSettled (Inl e) # evs') (init w)) = []
        \<and> reads (run P (evs @ AuthSettled (Inr None) # evs') (init w)) = []"
    using no_session_no_reads[where P=P and evs=evs and w=w and st=st] by blast
  have lc: "userDataSyncStoreClientPromise s \<noteq> Unset \<longrightarrow>
        step P (Call ep) s
          = s\<lparr>tasks := tasks s @ [AwaitClient (fst (batch ep)) (snd (batch ep))]\<rparr>"
    using later_call_enqueues[where s=s and P=P and ep=ep] by blast
  have rr: "tid < length (tasks s) \<and> tasks s ! tid = AwaitClient rs i \<longrightarrow>
        (userDataSyncStoreClientPromise s = Fulfilled None \<longrightarrow>
           step P (Resume tid) s = s\<lparr>tasks := (tasks s)[tid := Settled (Inr ())]\<rparr>)
        \<and> (userDataSyncStoreClientPromise s = Rejected e \<longrightarrow>
           step P (Resume tid) s = s\<lparr>tasks := (tasks s)[tid := Settled (Inl e)]\<rparr>)
        \<and> (userDataSyncStoreClientPromise s = Fulfilled (Some c) \<longrightarrow>
           (\<exists>subs. tasks (step P (Resume tid) s) ! tid = AwaitAll subs \<and> map fst subs = rs)
           \<and> userDataSyncStoreClientPromise (step P (Resume tid) s) = Fulfilled (Some c)
           \<and> probes (step P (Resume tid) s) = probes s
           \<and> builderRuns (step P (Resume tid) s) = builderRuns s)"
    using resume_receives[where tid=tid and s=s and rs=rs and i=i and P=P]
      resume_builder(1-3)[of tid s]
    by (auto simp del: step.simps simp: step.simps(4))
  from b c3 c4 g f f1 au ns lc rr show ?thesis by blast
qed

theorem connection_memoized_witness:
  "userDataSyncStoreClientPromise (run webPlatform
      [Call InitializeRequiredResources, Call InitializeOtherResources,
       AuthSettled (Inr (Some aSession))] (init freshServices))
     = Fulfilled (Some \<lparr>endpoint = ''https://sync.example'', token = ''token'',
                          authProvider = ''provider''\<rparr>)
   \<and> builderRuns (run webPlatform
      (Call InitializeRequiredResources #
       [Call InitializeOtherResources, AuthSettled (Inr (Some aSession)), Resume 0, Resume 1,
        Call InitializeRequiredResources, Resume 2]) (init freshServices)) = 1
   \<and> probes (run webPlatform
      (Call InitializeRequiredResources #
       [Call InitializeOtherResources, AuthSettled (Inr (Some aSession)), Resume 0, Resume 1,
        Call InitializeRequiredResources, Resume 2]) (init freshServices))
     = [ReadIsWeb, ReadEnableSyncByDefault, CallIsNew GLOBAL, CallIsNew WORKSPACE,
        ReadSyncStore, ReadCredentialsProvider, CallGetAuthenticationSession]
   \<and> reads (run webPlatform
      (Call InitializeRequiredResources #
       [Call InitializeOtherResources, AuthSettled (Inr (Some aSession)), Resume 0, Resume 1,
        Call InitializeRequiredResources, Resume 2]) (init freshServices))
     = [Settings, GlobalState, Keybindings, Snippets]
   \<and> userDataSyncStoreClientPromise (run webPlatform [Call InitializeRequiredResources]
      (init usedServices)) = Fulfilled None
   \<and> reads (run webPlatform
      (Call InitializeRequiredResources #
        [World freshServices, Call InitializeOtherResources, Resume 0, Resume 1])
      (init usedServices)) = []
   \<and> userDataSyncStoreClientPromise (run webPlatform [Call InitializeRequiredResources]
      (init freshServices)) = PendingAuth \<lparr>url = ''https://sync.example''\<rparr>
   \<and> reads (run webPlatform
      ([Call InitializeRequiredResources] @ AuthSettled (Inr None) #
        [Call InitializeOtherResources, Resume 0, Resume 1])
      (init freshServices)) = []"
proof -
  have pass: "spec_allPass (spec_gateChain webPlatform freshServices)"
    "\<not> spec_allPass (spec_gateChain webPlatform usedServices)"
    "spec_shortCircuit (spec_gateChain webPlatform freshServices)
       = ([ReadIsWeb, ReadEnableSyncByDefault, CallIsNew GLOBAL, CallIsNew WORKSPACE,
           ReadSyncStore, ReadCredentialsProvider], None)"
    by (simp_all add: spec_gateChain_def sample_defs optional_def)
  have e1: "userDataSyncStoreClientPromise (run webPlatform
      [Call InitializeRequiredResources, Call InitializeOtherResources,
       AuthSettled (Inr (Some aSession))] (init freshServices))
     = Fulfilled (Some \<lparr>endpoint = ''https://sync.example'', token = ''token'',
                          authProvider = ''provider''\<rparr>)"
    by (simp add: sample_defs segment_defs)
  have e4: "reads (run webPlatform
      (Call InitializeRequiredResources #
       [Call InitializeOtherResources, AuthSettled (Inr (Some aSession)), Resume 0, Resume 1,
        Call InitializeRequiredResources, Resume 2]) (init freshServices))
     = [Settings, GlobalState, Keybindings, Snippets]"
    by (simp add: sample_defs segment_defs)
  have e5: "userDataSyncStoreClientPromise (run webPlatform [Call InitializeRequiredResources]
      (init usedServices)) = Fulfilled None"
    by (simp add: sample_defs segment_defs)
  have e7: "userDataSyncStoreClientPromise (run webPlatform [Call InitializeRequiredResources]
      (init freshServices)) = PendingAuth \<lparr>url = ''https://sync.example''\<rparr>"
    by (simp add: sample_defs segment_defs)
  note t1 = connection_memoized[where P = webPlatform and w = freshServices
      and ep = InitializeRequiredResources
      and evs' = "[Call InitializeOtherResources, AuthSettled (Inr (Some aSession)),
                   Resume 0, Resume 1, Call InitializeRequiredResources, Resume 2]"]
  note t2 = connection_memoized[where P = webPlatform and w = usedServices
      and ep = InitializeRequiredResources
      and evs' = "[World freshServices, Call InitializeOtherResources, Resume 0, Resume 1]"]
  note t3 = connection_memoized[where P = webPlatform and w = freshServices
      and evs = "[Call InitializeRequiredResources]"
      and st = "\<lparr>url = ''https://sync.example''\<rparr>"
      and evs' = "[Call InitializeOtherResources, Resume 0, Resume 1]"]
  from t1 pass have w23: "builderRuns (run webPlatform
      (Call InitializeRequiredResources #
       [Call InitializeOtherResources, AuthSettled (Inr (Some aSession)), Resume 0, Resume 1,
        Call InitializeRequiredResources, Resume 2]) (init freshServices)) = 1
   \<and> probes (run webPlatform
      (Call InitializeRequiredResources #
       [Call InitializeOtherResources, AuthSettled (Inr (Some aSession)), Resume 0, Resume 1,
        Call InitializeRequiredResources, Resume 2]) (init freshServices))
     = [ReadIsWeb, ReadEnableSyncByDefault, CallIsNew GLOBAL, CallIsNew WORKSPACE,
        ReadSyncStore, ReadCredentialsProvider, CallGetAuthenticationSession]"
    by (simp del: run.simps)
  from t2 pass have w6: "reads (run webPlatform
      (Call InitializeRequiredResources #
        [World freshServices, Call InitializeOtherResources, Resume 0, Resume 1])
      (init usedServices)) = []"
    by (simp del: run.simps)
  from t3 e7 have w8: "reads (run webPlatform
      ([Call InitializeRequiredResources] @ AuthSettled (Inr None) #
        [Call InitializeOtherResources, Resume 0, Resume 1])
      (init freshServices)) = []"
    by (simp del: run.simps append.simps)
  from e1 w23 e4 e5 w6 e7 w8 show ?thesis by (simp only: simp_thms)
qed

subsection \<open>The order of the checks\<close>

lemma first_call:
  "probes (run P [Call ep] (init w)) = probes (startBuilder P (init w))"
  "logged (run P [Call ep] (init w)) = logged (startBuilder P (init w))"
  "userDataSyncStoreClientPromise (run P [Call ep] (init w))
     = userDataSyncStoreClientPromise (startBuilder P (init w))"
  by (simp_all add: call_builder create_unset[of "init w", simplified init_def, simplified]
      init_def)

text \<open>
  Claim C7. The first call of the builder evaluates its six checks in the specified
  order and stops at the first that fails, logging its reason and yielding an absent
  client; the authentication session is asked for only when all six pass; and a failure
  to obtain it is caught and logged, and yields an absent client too.
\<close>

theorem gating_short_circuit:
  "probes (run P [Call ep] (init w)) =
      fst (spec_shortCircuit (spec_gateChain P w))
      @ (if spec_allPass (spec_gateChain P w) then [CallGetAuthenticationSession] else [])
   \<and> logged (run P [Call ep] (init w)) =
      (case snd (spec_shortCircuit (spec_gateChain P w)) of None \<Rightarrow> [] | Some r \<Rightarrow> [TraceSkipping r])
   \<and> (snd (spec_shortCircuit (spec_gateChain P w)) = None) = spec_allPass (spec_gateChain P w)
   \<and> userDataSyncStoreClientPromise (run P [Call ep] (init w)) =
      (if spec_allPass (spec_gateChain P w)
       then (case syncStore w of Some st \<Rightarrow> PendingAuth st | None \<Rightarrow> Fulfilled None)
       else Fulfilled None)
   \<and> (userDataSyncStoreClientPromise s = PendingAuth st \<longrightarrow>
        userDataSyncStoreClientPromise (step P (AuthSettled (Inl e)) s) = Fulfilled None
        \<and> logged (step P (AuthSettled (Inl e)) s)
            = logged s @ [LogError e, TraceSkipping AuthenticationSessionNotSet])"
proof -
  have a: "userDataSyncStoreClientPromise s = PendingAuth st \<longrightarrow>
        userDataSyncStoreClientPromise (step P (AuthSettled (Inl e)) s) = Fulfilled None
        \<and> logged (step P (AuthSettled (Inl e)) s)
            = logged s @ [LogError e, TraceSkipping AuthenticationSessionNotSet]"
    by (simp add: authSettled_def skip_def)
  have b: "probes (startBuilder P (init w)) =
      fst (spec_shortCircuit (spec_gateChain P w))
      @ (if spec_allPass (spec_gateChain P w) then [CallGetAuthenticationSession] else [])"
    by (simp add: startBuilder_def Let_def probe_def skip_def spec_gateChain_def init_def
        split: option.split)
  have c: "logged (startBuilder P (init w)) =
      (case snd (spec_shortCircuit (spec_gateChain P w)) of None \<Rightarrow> [] | Some r \<Rightarrow> [TraceSkipping r])"
    by (simp add: startBuilder_def Let_def probe_def skip_def spec_gateChain_def init_def
        split: option.split)
  have d: "(snd (spec_shortCircuit (spec_gateChain P w)) = None) = spec_allPass (spec_gateChain P w)"
    by (simp add: spec_gateChain_def)
  have f: "userDataSyncStoreClientPromise (startBuilder P (init w)) =
      (if spec_allPass (spec_gateChain P w)
       then (case syncStore w of Some st \<Rightarrow> PendingAuth st | None \<Rightarrow> Fulfilled None)
       else Fulfilled None)"
    by (simp add: startBuilder_def Let_def probe_def skip_def spec_gateChain_def init_def
        split: option.split)
  show ?thesis using a b c d f by (simp add: first_call del: run.simps step.simps)
qed


theorem gating_short_circuit_witness:
  "probes (run webPlatform [Call InitializeRequiredResources] (init usedServices))
     = [ReadIsWeb, ReadEnableSyncByDefault, CallIsNew GLOBAL]
   \<and> logged (run webPlatform [Call InitializeRequiredResources] (init usedServices))
     = [TraceSkipping ApplicationOpenedBefore]
   \<and> userDataSyncStoreClientPromise
       (run webPlatform [Call InitializeRequiredResources] (init usedServices))
     = Fulfilled None
   \<and> userDataSyncStoreClientPromise
       (run webPlatform [Call InitializeRequiredResources] (init freshServices))
     = PendingAuth \<lparr>url = ''https://sync.example''\<rparr>
   \<and> userDataSyncStoreClientPromise
       (step webPlatform (AuthSettled (Inl ''offline''))
          (run webPlatform [Call InitializeRequiredResources] (init freshServices)))
     = Fulfilled None
   \<and> logged
       (step webPlatform (AuthSettled (Inl ''offline''))
          (run webPlatform [Call InitializeRequiredResources] (init freshServices)))
     = [LogError ''offline'', TraceSkipping AuthenticationSessionNotSet]"
proof -
  have u: "spec_shortCircuit (spec_gateChain webPlatform usedServices)
      = ([ReadIsWeb, ReadEnableSyncByDefault, CallIsNew GLOBAL], Some ApplicationOpenedBefore)"
    "\<not> spec_allPass (spec_gateChain webPlatform usedServices)"
    by (simp_all add: spec_gateChain_def sample_defs optional_def)
  have f: "spec_allPass (spec_gateChain webPlatform freshServices)"
    "syncStore freshServices = Some \<lparr>url = ''https://sync.example''\<rparr>"
    by (simp_all add: spec_gateChain_def sample_defs optional_def)
  have l: "logged (run webPlatform [Call InitializeRequiredResources] (init freshServices)) = []"
    by (simp add: sample_defs segment_defs)
  note a = gating_short_circuit[of webPlatform InitializeRequiredResources usedServices]
  note b = gating_short_circuit[of webPlatform InitializeRequiredResources freshServices
      "run webPlatform [Call InitializeRequiredResources] (init freshServices)"
      "\<lparr>url = ''https://sync.example''\<rparr>" "''offline''"]
  from a u b f l show ?thesis by (simp del: run.simps step.simps)
qed

subsection \<open>What reaches the caller\<close>

lemma set_update_cases: "t \<in> set (xs[i := y]) \<Longrightarrow> t = y \<or> t \<in> set xs"
  using set_update_subset_insert[of xs i y] by auto

lemma resume_tasks:
  "t \<in> set (tasks (resume tid s)) \<Longrightarrow>
     t \<in> set (tasks s) \<or> (\<exists>subs. t = AwaitAll subs) \<or> t = Settled (Inr ())
     \<or> (\<exists>e. t = Settled (Inl e) \<and> userDataSyncStoreClientPromise s = Rejected e)"
  using mapResources_frame[of _ _ s]
  by (auto simp: resume_def dest!: set_update_cases
      split: if_splits task.splits clientPromise.splits option.splits prod.splits)

lemma readSettled_tasks:
  "t \<in> set (tasks (readSettled tid i r s)) \<Longrightarrow> t \<in> set (tasks s) \<or> (\<exists>subs. t = AwaitAll subs)"
  by (auto simp: readSettled_def catchError_def dest!: set_update_cases
      split: if_splits task.splits phase.splits sum.splits prod.splits)

lemma applySettled_tasks:
  "t \<in> set (tasks (applySettled tid i r s)) \<Longrightarrow> t \<in> set (tasks s) \<or> (\<exists>subs. t = AwaitAll subs)"
  by (auto simp: applySettled_def catchError_def dest!: set_update_cases
      split: if_splits task.splits phase.splits sum.splits prod.splits)

lemma authSettled_rejected:
  "userDataSyncStoreClientPromise s = Rejected e \<Longrightarrow> authSettled P r s = s"
  by (simp add: authSettled_def)

lemma startBuilder_not_rejected:
  "userDataSyncStoreClientPromise (startBuilder P s) \<noteq> Rejected e"
  by (simp add: startBuilder_def Let_def probe_def skip_def split: option.split)

lemma create_promise_rejected:
  "userDataSyncStoreClientPromise (createUserDataSyncStoreClient P s) = Rejected e
     \<longleftrightarrow> userDataSyncStoreClientPromise s = Rejected e"
  by (cases "userDataSyncStoreClientPromise s")
     (simp_all add: createUserDataSyncStoreClient_def startBuilder_not_rejected)

lemma outcome_AwaitAll: "taskOutcome (AwaitAll subs) \<noteq> Some (Inl e)"
  by simp

lemma step_rejectionsTraced:
  assumes "rejectionsTraced s"
  shows "rejectionsTraced (step P ev s)"
proof (cases ev)
  case (World w)
  with assms show ?thesis by (simp add: rejectionsTraced_def)
next
  case (Call ep)
  with assms show ?thesis
    by (auto simp: rejectionsTraced_def call_builder call_frame create_promise_rejected)
next
  case (AuthSettled r)
  show ?thesis
  proof (cases "\<exists>e. userDataSyncStoreClientPromise s = Rejected e")
    case True
    then obtain e where "userDataSyncStoreClientPromise s = Rejected e" by blast
    with assms AuthSettled show ?thesis by (simp add: authSettled_rejected)
  next
    case False
    with assms have "\<forall>t \<in> set (tasks s). \<forall>e. taskOutcome t \<noteq> Some (Inl e)"
      by (auto simp: rejectionsTraced_def)
    with AuthSettled show ?thesis
      by (simp add: rejectionsTraced_def authSettled_frame)
  qed
next
  case (Resume tid)
  with assms show ?thesis
    by (auto simp: rejectionsTraced_def resume_builder dest!: resume_tasks split: if_splits)
next
  case (ReadSettled tid i r)
  with assms show ?thesis
    by (auto simp: rejectionsTraced_def readSettled_frame dest!: readSettled_tasks
        split: if_splits)
next
  case (ApplySettled tid i r)
  with assms show ?thesis
    by (auto simp: rejectionsTraced_def applySettled_frame dest!: applySettled_tasks
        split: if_splits)
qed

lemma run_rejectionsTraced: "rejectionsTraced s \<Longrightarrow> rejectionsTraced (run P es s)"
  by (induction es arbitrary: s) (simp_all add: step_rejectionsTraced)

lemma init_rejectionsTraced: "rejectionsTraced (init w)"
  by (simp add: rejectionsTraced_def init_def)

text \<open>
  Over every sequence of events a call ends with an error only when the client promise
  was rejected with it: what a failing authentication, a missing instantiation service,
  a failing read or a failing apply throws is caught inside the service.
\<close>

lemma raised_only_from_rejection:
  assumes "tid < length (tasks (run P evs (init w)))"
    and "taskOutcome (tasks (run P evs (init w)) ! tid) = Some (Inl e)"
  shows "userDataSyncStoreClientPromise (run P evs (init w)) = Rejected e"
proof -
  have "rejectionsTraced (run P evs (init w))"
    by (rule run_rejectionsTraced[OF init_rejectionsTraced])
  with assms show ?thesis
    unfolding rejectionsTraced_def using nth_mem by blast
qed

text \<open>
  Claim C3. \<open>initialize\<close> is to raise nothing to its caller: what fails while the
  connection is built, while a resource is fetched or while it is applied is to be
  absorbed and logged. The code does not do so for the building of the client. In a web
  session in which every check passes and a session is obtained, with the endpoint
  \<open>sync store://example\<close>, \<open>URI.parse\<close> throws after the \<open>try\<close> of the builder,
  the client promise is rejected, and the call of \<open>initializeRequiredResources\<close> ends
  with the error, as does a later call of \<open>initializeOtherResources\<close>; nothing is
  logged. With the same services, a failing authentication, which the builder guards, is
  logged and the call returns.
\<close>

theorem initialize_raises_on_malformed_endpoint:
  "userDataSyncStoreClientPromise (run strictPlatform
       [Call InitializeRequiredResources, AuthSettled (Inr (Some aSession)), Resume 0,
        Call InitializeOtherResources, Resume 1]
       (init misconfiguredServices))
     = Rejected ''[UriError]: Scheme contains illegal characters.''
   \<and> map taskOutcome (tasks (run strictPlatform
       [Call InitializeRequiredResources, AuthSettled (Inr (Some aSession)), Resume 0,
        Call InitializeOtherResources, Resume 1]
       (init misconfiguredServices)))
     = [Some (Inl ''[UriError]: Scheme contains illegal characters.''),
        Some (Inl ''[UriError]: Scheme contains illegal characters.'')]
   \<and> logged (run strictPlatform
       [Call InitializeRequiredResources, AuthSettled (Inr (Some aSession)), Resume 0,
        Call InitializeOtherResources, Resume 1]
       (init misconfiguredServices)) = []
   \<and> map taskOutcome (tasks (run strictPlatform
       [Call InitializeRequiredResources, AuthSettled (Inl ''offline''), Resume 0]
       (init misconfiguredServices))) = [Some (Inr ())]
   \<and> logged (run strictPlatform
       [Call InitializeRequiredResources, AuthSettled (Inl ''offline''), Resume 0]
       (init misconfiguredServices))
     = [LogError ''offline'', TraceSkipping AuthenticationSessionNotSet]"
  by (simp add: sample_defs segment_defs)

subsection \<open>Extensions without an instantiation service\<close>

lemma callback_ext:
  assumes "callback i r s = (s', ph)" "Extensions \<notin> set (reads s)"
    "r = Extensions \<longrightarrow> i = None"
  shows "Extensions \<notin> set (reads s')"
  using assms
  by (cases r)
     (auto simp: callback_def tryBody_def catchError_def Let_def split: if_splits sum.splits)

lemma mapResources_ext:
  "mapResources i rs s = (s', subs) \<Longrightarrow> Extensions \<notin> set (reads s) \<Longrightarrow>
     (Extensions \<in> set rs \<longrightarrow> i = None) \<Longrightarrow> Extensions \<notin> set (reads s')"
proof (induction rs arbitrary: s s' subs)
  case Nil
  then show ?case by simp
next
  case (Cons r rs)
  obtain s1 ph where c: "callback i r s = (s1, ph)" by (cases "callback i r s")
  obtain s2 subs2 where m: "mapResources i rs s1 = (s2, subs2)"
    by (cases "mapResources i rs s1")
  from Cons.prems c m have e: "s' = s2" by simp
  from Cons.prems(3) have h: "r = Extensions \<longrightarrow> i = None" "Extensions \<in> set rs \<longrightarrow> i = None"
    by auto
  from Cons.IH[OF m callback_ext[OF c Cons.prems(2) h(1)] h(2)] e show ?case by simp
qed

lemma resume_ext:
  assumes "extensionsUnread s"
  shows "Extensions \<notin> set (reads (resume tid s))"
proof (cases "tid < length (tasks s)")
  case False
  with assms show ?thesis by (simp add: resume_def extensionsUnread_def)
next
  case True
  then have mem: "tasks s ! tid \<in> set (tasks s)" by simp
  show ?thesis
  proof (cases "tasks s ! tid")
    case (AwaitClient rs i)
    with mem assms have g: "Extensions \<in> set rs \<longrightarrow> i = None"
      by (cases i) (auto simp: extensionsUnread_def)
    from assms have u: "Extensions \<notin> set (reads s)" by (simp add: extensionsUnread_def)
    from mapResources_ext[OF _ u g] True AwaitClient u show ?thesis
      by (auto simp: resume_def split: clientPromise.splits option.splits prod.splits)
  next
    case (AwaitAll subs)
    with True assms show ?thesis by (simp add: resume_def extensionsUnread_def)
  next
    case (Settled r)
    with True assms show ?thesis by (simp add: resume_def extensionsUnread_def)
  qed
qed

lemma step_extensionsUnread:
  assumes "noCapability ev" "extensionsUnread s"
  shows "extensionsUnread (step P ev s)"
proof (cases ev)
  case (World w)
  with assms show ?thesis by (simp add: extensionsUnread_def)
next
  case (Call ep)
  with assms show ?thesis
    by (cases ep; cases "snd (batch ep)") (auto simp: extensionsUnread_def call_frame)
next
  case (AuthSettled r)
  with assms show ?thesis by (simp add: extensionsUnread_def authSettled_frame)
next
  case (Resume tid)
  with assms resume_ext[OF assms(2), of tid] show ?thesis
    by (auto simp: extensionsUnread_def dest!: resume_tasks)
next
  case (ReadSettled tid i r)
  with assms show ?thesis
    by (auto simp: extensionsUnread_def readSettled_frame dest!: readSettled_tasks)
next
  case (ApplySettled tid i r)
  with assms show ?thesis
    by (auto simp: extensionsUnread_def applySettled_frame dest!: applySettled_tasks)
qed

lemma run_extensionsUnread:
  "list_all noCapability es \<Longrightarrow> extensionsUnread s \<Longrightarrow> extensionsUnread (run P es s)"
  by (induction es arbitrary: s) (simp_all add: step_extensionsUnread)

lemma init_extensionsUnread: "extensionsUnread (init w)"
  by (simp add: extensionsUnread_def init_def)

text \<open>
  Claim C2, as amended. While \<open>initializeExtensions\<close> is only called without an
  instantiation service, \<open>Extensions\<close> is never read. The error of the missing service
  does not reach the caller: it is thrown inside the \<open>try\<close> of the callback, so when
  such a call resumes with a client and \<open>Extensions\<close> not yet initialized, the error is
  logged, nothing is read or applied, and the call returns.
\<close>

theorem missing_capability_absorbed:
  "(list_all noCapability evs \<longrightarrow> Extensions \<notin> set (reads (run P evs (init w))))
   \<and> (tid < length (tasks s) \<and> tasks s ! tid = AwaitClient [Extensions] None
       \<and> userDataSyncStoreClientPromise s = Fulfilled (Some c)
       \<and> Extensions \<notin> set (initialized s) \<longrightarrow>
        taskOutcome (tasks (step P (Resume tid) s) ! tid) = Some (Inr ())
        \<and> logged (step P (Resume tid) s) = logged s @
            [TraceInitializing Extensions, InfoErrorWhileInitializing Extensions,
             LogError ''Instantiation Service is required to initialize extension'']
        \<and> reads (step P (Resume tid) s) = reads s
        \<and> applies (step P (Resume tid) s) = applies s)"
proof -
  have a: "list_all noCapability evs \<longrightarrow> Extensions \<notin> set (reads (run P evs (init w)))"
    using run_extensionsUnread[OF _ init_extensionsUnread, of evs P w]
    by (simp add: extensionsUnread_def)
  have b: "tid < length (tasks s) \<and> tasks s ! tid = AwaitClient [Extensions] None
       \<and> userDataSyncStoreClientPromise s = Fulfilled (Some c)
       \<and> Extensions \<notin> set (initialized s) \<longrightarrow>
        taskOutcome (tasks (step P (Resume tid) s) ! tid) = Some (Inr ())
        \<and> logged (step P (Resume tid) s) = logged s @
            [TraceInitializing Extensions, InfoErrorWhileInitializing Extensions,
             LogError ''Instantiation Service is required to initialize extension'']
        \<and> reads (step P (Resume tid) s) = reads s
        \<and> applies (step P (Resume tid) s) = applies s"
    by (simp add: resume_def callback_def tryBody_def catchError_def)
  from a b show ?thesis by blast
qed


theorem missing_capability_absorbed_witness:
  "list_all noCapability
     [Call (InitializeExtensions None), AuthSettled (Inr (Some aSession)), Resume 0]
   \<and> Extensions \<notin> set (reads (run webPlatform
       [Call (InitializeExtensions None), AuthSettled (Inr (Some aSession)), Resume 0]
       (init freshServices)))
   \<and> tasks (run webPlatform
       [Call (InitializeExtensions None), AuthSettled (Inr (Some aSession))]
       (init freshServices)) ! 0 = AwaitClient [Extensions] None
   \<and> taskOutcome (tasks (step webPlatform (Resume 0) (run webPlatform
       [Call (InitializeExtensions None), AuthSettled (Inr (Some aSession))]
       (init freshServices))) ! 0) = Some (Inr ())
   \<and> reads (step webPlatform (Resume 0) (run webPlatform
       [Call (InitializeExtensions None), AuthSettled (Inr (Some aSession))]
       (init freshServices))) = []"
proof -
  let ?s = "run webPlatform
       [Call (InitializeExtensions None), AuthSettled (Inr (Some aSession))]
       (init freshServices)"
  have h: "0 < length (tasks ?s)" "tasks ?s ! 0 = AwaitClient [Extensions] None"
    "userDataSyncStoreClientPromise ?s = Fulfilled (Some
       \<lparr>endpoint = ''https://sync.example'', token = ''token'', authProvider = ''provider''\<rparr>)"
    "Extensions \<notin> set (initialized ?s)" "reads ?s = []"
    by (simp_all add: sample_defs segment_defs)
  have n: "list_all noCapability
     [Call (InitializeExtensions None), AuthSettled (Inr (Some aSession)), Resume 0]"
    by simp
  note t = missing_capability_absorbed[of
      "[Call (InitializeExtensions None), AuthSettled (Inr (Some aSession)), Resume 0]"
      webPlatform freshServices 0 ?s
      "\<lparr>endpoint = ''https://sync.example'', token = ''token'', authProvider = ''provider''\<rparr>"]
  from t h n show ?thesis by (simp del: run.simps step.simps)
qed

text \<open>
  The claim as stated fails: with every check passing and a session, the call of
  \<open>initializeExtensions\<close> without an instantiation service returns; the error is in the
  log.
\<close>

theorem missing_capability_counterexample:
  "taskOutcome (tasks (run webPlatform
       [Call (InitializeExtensions None), AuthSettled (Inr (Some aSession)), Resume 0]
       (init freshServices)) ! 0) = Some (Inr ())
   \<and> logged (run webPlatform
       [Call (InitializeExtensions None), AuthSettled (Inr (Some aSession)), Resume 0]
       (init freshServices))
     = [TraceInitializing Extensions, InfoErrorWhileInitializing Extensions,
        LogError ''Instantiation Service is required to initialize extension'']"
  by (simp add: sample_defs segment_defs)

subsection \<open>Suspended callbacks\<close>

lemma sum_list_map_update:
  fixes f :: "'a \<Rightarrow> nat"
  shows "i < length xs \<Longrightarrow>
    sum_list (map f (xs[i := y])) + f (xs ! i) = sum_list (map f xs) + f y"
proof (induction xs arbitrary: i)
  case Nil
  then show ?case by simp
next
  case (Cons x xs)
  show ?case
  proof (cases i)
    case 0
    then show ?thesis by simp
  next
    case (Suc j)
    with Cons.prems have "j < length xs" by simp
    from Cons.IH[OF this] Suc show ?thesis by simp
  qed
qed

lemma liveTasks_sub_update:
  assumes "tid < length ts" "ts ! tid = AwaitAll subs" "i < length subs"
  shows "liveTasks k (ts[tid := AwaitAll (subs[i := x])]) + liveSub k (subs ! i)
           = liveTasks k ts + liveSub k x"
proof -
  have a: "liveTasks k (ts[tid := AwaitAll (subs[i := x])]) + liveIn k (AwaitAll subs)
           = liveTasks k ts + liveIn k (AwaitAll (subs[i := x]))"
    using sum_list_map_update[OF assms(1), of "liveIn k" "AwaitAll (subs[i := x])"] assms(2)
    by (simp add: liveTasks_def)
  have b: "liveIn k (AwaitAll (subs[i := x])) + liveSub k (subs ! i)
           = liveIn k (AwaitAll subs) + liveSub k x"
    using sum_list_map_update[OF assms(3), of "liveSub k" x] by simp
  from a b show ?thesis by arith
qed

lemma liveTasks_task_update:
  assumes "tid < length ts"
  shows "liveTasks k (ts[tid := t]) + liveIn k (ts ! tid) = liveTasks k ts + liveIn k t"
  using sum_list_map_update[OF assms, of "liveIn k" t] by (simp add: liveTasks_def)

lemma liveTasks_append: "liveTasks k (ts @ [t]) = liveTasks k ts + liveIn k t"
  by (simp add: liveTasks_def)

lemma live_sub_counted:
  assumes "tid < length ts" "ts ! tid = AwaitAll subs" "i < length subs"
  shows "liveSub k (subs ! i) \<le> liveTasks k ts"
proof -
  have "liveSub k (subs ! i) \<le> liveIn k (AwaitAll subs)"
    using assms(3) by (simp add: member_le_sum_list)
  also have "\<dots> \<le> liveTasks k ts"
  proof -
    have "liveIn k (ts ! tid) \<in> set (map (liveIn k) ts)"
      using assms(1) by simp
    then have "liveIn k (ts ! tid) \<le> sum_list (map (liveIn k) ts)"
      by (simp only: member_le_sum_list)
    with assms(2) show ?thesis by (simp add: liveTasks_def)
  qed
  finally show ?thesis .
qed

lemma callback_live:
  assumes "callback i r s = (s', ph)"
  shows "set (initialized s) \<subseteq> set (initialized s')"
    "k \<in> set (initialized s) \<Longrightarrow> liveSub k (r, ph) = 0"
    "k \<in> set (initialized s) \<Longrightarrow> count_list (reads s') k = count_list (reads s) k"
    "liveSub k (r, ph) \<noteq> 0 \<Longrightarrow> k \<in> set (initialized s')"
  using assms
  by (auto simp: callback_def tryBody_def catchError_def Let_def split: if_splits sum.splits)

lemma mapResources_live:
  "mapResources i rs s = (s', subs) \<Longrightarrow>
     set (initialized s) \<subseteq> set (initialized s')
     \<and> (k \<in> set (initialized s) \<longrightarrow> sum_list (map (liveSub k) subs) = 0
           \<and> count_list (reads s') k = count_list (reads s) k)
     \<and> sum_list (map (liveSub k) subs) \<le> 1
     \<and> (k \<notin> set (initialized s') \<longrightarrow> sum_list (map (liveSub k) subs) = 0)"
proof (induction rs arbitrary: s s' subs)
  case Nil
  then show ?case by simp
next
  case (Cons r rs)
  obtain s1 ph where c: "callback i r s = (s1, ph)" by (cases "callback i r s")
  obtain s2 subs2 where m: "mapResources i rs s1 = (s2, subs2)"
    by (cases "mapResources i rs s1")
  from Cons.prems c m have e: "s' = s2" "subs = (r, ph) # subs2" by simp_all
  note ih = Cons.IH[OF m]
  note cb = callback_live[OF c]
  have l1: "liveSub k (r, ph) \<le> 1" by simp
  show ?case
  proof (cases "liveSub k (r, ph) = 0")
    case True
    with ih cb e show ?thesis by auto
  next
    case False
    with cb(4) have "k \<in> set (initialized s1)" by simp
    with ih cb e l1 False show ?thesis by auto
  qed
qed


lemma resume_live:
  "\<exists>d. liveTasks k (tasks (resume tid s)) = liveTasks k (tasks s) + d \<and> d \<le> 1
     \<and> (k \<in> set (initialized s) \<longrightarrow>
           d = 0 \<and> count_list (reads (resume tid s)) k = count_list (reads s) k)
     \<and> (k \<notin> set (initialized (resume tid s)) \<longrightarrow> d = 0)
     \<and> set (initialized s) \<subseteq> set (initialized (resume tid s))"
proof (cases "tid < length (tasks s)")
  case False
  then show ?thesis by (simp add: resume_def)
next
  case True
  show ?thesis
  proof (cases "tasks s ! tid")
    case (AwaitClient rs i)
    have same: "\<And>t. liveIn k t = 0 \<Longrightarrow>
        liveTasks k ((tasks s)[tid := t]) = liveTasks k (tasks s)"
      using liveTasks_task_update[OF True, of k] AwaitClient by simp
    show ?thesis
    proof (cases "userDataSyncStoreClientPromise s")
      case Unset
      with True AwaitClient show ?thesis by (simp add: resume_def)
    next
      case (PendingAuth st)
      with True AwaitClient show ?thesis by (simp add: resume_def)
    next
      case (Rejected e)
      with True AwaitClient same show ?thesis by (simp add: resume_def)
    next
      case (Fulfilled co)
      show ?thesis
      proof (cases co)
        case None
        with Fulfilled True AwaitClient same show ?thesis by (simp add: resume_def)
      next
        case (Some c)
        obtain s1 subs where m: "mapResources i rs s = (s1, subs)"
          by (cases "mapResources i rs s")
        from mapResources_frame[OF m] have ts: "tasks s1 = tasks s" by simp
        from Some Fulfilled True AwaitClient m ts
        have r: "resume tid s = s1\<lparr>tasks := (tasks s)[tid := AwaitAll subs]\<rparr>"
          by (simp add: resume_def)
        have "liveTasks k ((tasks s)[tid := AwaitAll subs])
                = liveTasks k (tasks s) + sum_list (map (liveSub k) subs)"
          using liveTasks_task_update[OF True, of k "AwaitAll subs"] AwaitClient by simp
        with mapResources_live[OF m, of k] r show ?thesis by simp
      qed
    qed
  next
    case (AwaitAll subs)
    with True show ?thesis by (simp add: resume_def)
  next
    case (Settled r)
    with True show ?thesis by (simp add: resume_def)
  qed
qed

text \<open>A settling event either finds its callback waiting or changes nothing.\<close>

lemma readSettled_cases:
  "readSettled tid i r s = s
   \<or> (\<exists>subs k ini. tid < length (tasks s) \<and> tasks s ! tid = AwaitAll subs \<and> i < length subs
        \<and> subs ! i = (k, AwaitRead ini)
        \<and> ((\<exists>e. r = Inl e \<and> readSettled tid i r s = (catchError k e s)
                 \<lparr>tasks := (tasks s)[tid := AwaitAll (subs[i := (k, Finished)])]\<rparr>)
            \<or> (\<exists>d. r = Inr d \<and> readSettled tid i r s = s
                 \<lparr>applies := applies s @ [k],
                  tasks := (tasks s)[tid := AwaitAll (subs[i := (k, AwaitApply)])]\<rparr>)))"
  by (auto simp: readSettled_def split: task.splits phase.splits sum.splits prod.splits)

lemma applySettled_cases:
  "applySettled tid i r s = s
   \<or> (\<exists>subs k. tid < length (tasks s) \<and> tasks s ! tid = AwaitAll subs \<and> i < length subs
        \<and> subs ! i = (k, AwaitApply)
        \<and> ((\<exists>e. r = Inl e \<and> applySettled tid i r s = (catchError k e s)
                 \<lparr>tasks := (tasks s)[tid := AwaitAll (subs[i := (k, Finished)])]\<rparr>)
            \<or> (r = Inr () \<and> applySettled tid i r s = s
                 \<lparr>logged := logged s @ [InfoInitialized k],
                  tasks := (tasks s)[tid := AwaitAll (subs[i := (k, Finished)])]\<rparr>)))"
  by (auto simp: applySettled_def split: task.splits phase.splits sum.splits prod.splits)

lemma readSettled_live:
  "liveTasks k (tasks (readSettled tid i r s)) \<le> liveTasks k (tasks s)
   \<and> (applies (readSettled tid i r s) = applies s
       \<or> (\<exists>j. applies (readSettled tid i r s) = applies s @ [j] \<and> 1 \<le> liveTasks j (tasks s)))"
proof -
  from readSettled_cases[of tid i r s] show ?thesis
  proof (elim disjE exE conjE)
    assume "readSettled tid i r s = s"
    then show ?thesis by simp
  next
    fix subs j ini e
    assume h: "tid < length (tasks s)" "tasks s ! tid = AwaitAll subs" "i < length subs"
      "subs ! i = (j, AwaitRead ini)"
      and e: "readSettled tid i r s = (catchError j e s)
                 \<lparr>tasks := (tasks s)[tid := AwaitAll (subs[i := (j, Finished)])]\<rparr>"
    from liveTasks_sub_update[OF h(1-3), of k "(j, Finished)"] h(4) e
    show ?thesis by (simp add: catchError_def)
  next
    fix subs j ini d
    assume h: "tid < length (tasks s)" "tasks s ! tid = AwaitAll subs" "i < length subs"
      "subs ! i = (j, AwaitRead ini)"
      and e: "readSettled tid i r s = s
                 \<lparr>applies := applies s @ [j],
                  tasks := (tasks s)[tid := AwaitAll (subs[i := (j, AwaitApply)])]\<rparr>"
    from live_sub_counted[OF h(1-3), of j] h(4) have "1 \<le> liveTasks j (tasks s)" by simp
    with liveTasks_sub_update[OF h(1-3), of k "(j, AwaitApply)"] h(4) e
    show ?thesis by simp
  qed
qed

lemma applySettled_live:
  "liveTasks k (tasks (applySettled tid i r s)) \<le> liveTasks k (tasks s)"
proof -
  from applySettled_cases[of tid i r s] show ?thesis
  proof (elim disjE exE conjE)
    assume "applySettled tid i r s = s"
    then show ?thesis by simp
  next
    fix subs j e
    assume h: "tid < length (tasks s)" "tasks s ! tid = AwaitAll subs" "i < length subs"
      "subs ! i = (j, AwaitApply)"
      and e: "applySettled tid i r s = (catchError j e s)
                 \<lparr>tasks := (tasks s)[tid := AwaitAll (subs[i := (j, Finished)])]\<rparr>"
    from liveTasks_sub_update[OF h(1-3), of k "(j, Finished)"] h(4) e
    show ?thesis by (simp add: catchError_def)
  next
    fix subs j
    assume h: "tid < length (tasks s)" "tasks s ! tid = AwaitAll subs" "i < length subs"
      "subs ! i = (j, AwaitApply)"
      and e: "applySettled tid i r s = s
                 \<lparr>logged := logged s @ [InfoInitialized j],
                  tasks := (tasks s)[tid := AwaitAll (subs[i := (j, Finished)])]\<rparr>"
    from liveTasks_sub_update[OF h(1-3), of k "(j, Finished)"] h(4) e
    show ?thesis by simp
  qed
qed

lemma step_tracked:
  assumes "tracked s"
  shows "tracked (step P ev s)"
proof (cases ev)
  case (World w)
  with assms show ?thesis by (simp add: tracked_def)
next
  case (Call ep)
  with assms show ?thesis by (simp add: tracked_def call_frame liveTasks_append)
next
  case (AuthSettled r)
  with assms show ?thesis by (simp add: tracked_def authSettled_frame)
next
  case (Resume tid)
  have "\<And>k. liveTasks k (tasks (resume tid s)) \<le> 1
      \<and> (k \<notin> set (initialized (resume tid s)) \<longrightarrow>
           liveTasks k (tasks (resume tid s)) = 0 \<and> k \<notin> set (applies (resume tid s)))"
  proof -
    fix k
    from assms have t: "liveTasks k (tasks s) \<le> 1"
      "k \<notin> set (initialized s) \<Longrightarrow> liveTasks k (tasks s) = 0 \<and> k \<notin> set (applies s)"
      by (simp_all add: tracked_def)
    from resume_live[of k tid s] obtain d where
      d: "liveTasks k (tasks (resume tid s)) = liveTasks k (tasks s) + d" "d \<le> 1"
        "k \<in> set (initialized s) \<Longrightarrow> d = 0"
        "k \<notin> set (initialized (resume tid s)) \<Longrightarrow> d = 0"
        "set (initialized s) \<subseteq> set (initialized (resume tid s))"
      by blast
    have a: "liveTasks k (tasks (resume tid s)) \<le> 1"
    proof (cases "k \<in> set (initialized s)")
      case True
      with d(1,3) t(1) show ?thesis by simp
    next
      case False
      with d(1,2) t(2) show ?thesis by simp
    qed
    have b: "liveTasks k (tasks (resume tid s)) = 0 \<and> k \<notin> set (applies (resume tid s))"
      if n: "k \<notin> set (initialized (resume tid s))"
    proof -
      from n d(5) have "k \<notin> set (initialized s)" by blast
      with t(2) d(1) d(4)[OF n] show ?thesis by (simp add: resume_builder)
    qed
    from a b
    show "liveTasks k (tasks (resume tid s)) \<le> 1
      \<and> (k \<notin> set (initialized (resume tid s)) \<longrightarrow>
           liveTasks k (tasks (resume tid s)) = 0 \<and> k \<notin> set (applies (resume tid s)))"
      by blast
  qed
  with Resume show ?thesis by (simp add: tracked_def)
next
  case (ReadSettled tid i r)
  have "\<And>k. liveTasks k (tasks (readSettled tid i r s)) \<le> 1
      \<and> (k \<notin> set (initialized (readSettled tid i r s)) \<longrightarrow>
           liveTasks k (tasks (readSettled tid i r s)) = 0
           \<and> k \<notin> set (applies (readSettled tid i r s)))"
  proof -
    fix k
    from assms have t: "liveTasks k (tasks s) \<le> 1"
      "k \<notin> set (initialized s) \<Longrightarrow> liveTasks k (tasks s) = 0 \<and> k \<notin> set (applies s)"
      by (simp_all add: tracked_def)
    from assms have u: "\<And>j. 1 \<le> liveTasks j (tasks s) \<Longrightarrow> j \<in> set (initialized s)"
      by (auto simp: tracked_def)
    from readSettled_live[of k tid i r s]
    have l: "liveTasks k (tasks (readSettled tid i r s)) \<le> liveTasks k (tasks s)"
      and ap: "applies (readSettled tid i r s) = applies s
        \<or> (\<exists>j. applies (readSettled tid i r s) = applies s @ [j]
              \<and> 1 \<le> liveTasks j (tasks s))"
      by simp_all
    from l t(1) have a: "liveTasks k (tasks (readSettled tid i r s)) \<le> 1" by simp
    have b: "liveTasks k (tasks (readSettled tid i r s)) = 0
           \<and> k \<notin> set (applies (readSettled tid i r s))"
      if n: "k \<notin> set (initialized s)"
    proof -
      from t(2)[OF n] l have z: "liveTasks k (tasks (readSettled tid i r s)) = 0" by simp
      from ap have "k \<notin> set (applies (readSettled tid i r s))"
      proof
        assume "applies (readSettled tid i r s) = applies s"
        with t(2)[OF n] show ?thesis by simp
      next
        assume "\<exists>j. applies (readSettled tid i r s) = applies s @ [j]
              \<and> 1 \<le> liveTasks j (tasks s)"
        then obtain j where j: "applies (readSettled tid i r s) = applies s @ [j]"
          "1 \<le> liveTasks j (tasks s)" by blast
        from u[OF j(2)] n have "j \<noteq> k" by blast
        with j(1) t(2)[OF n] show ?thesis by simp
      qed
      with z show ?thesis by simp
    qed
    from a b
    show "liveTasks k (tasks (readSettled tid i r s)) \<le> 1
      \<and> (k \<notin> set (initialized (readSettled tid i r s)) \<longrightarrow>
           liveTasks k (tasks (readSettled tid i r s)) = 0
           \<and> k \<notin> set (applies (readSettled tid i r s)))"
      by (simp add: readSettled_frame)
  qed
  with ReadSettled show ?thesis by (simp add: tracked_def)
next
  case (ApplySettled tid i r)
  have "\<And>k. liveTasks k (tasks (applySettled tid i r s)) \<le> 1
      \<and> (k \<notin> set (initialized (applySettled tid i r s)) \<longrightarrow>
           liveTasks k (tasks (applySettled tid i r s)) = 0
           \<and> k \<notin> set (applies (applySettled tid i r s)))"
  proof -
    fix k
    from assms have t: "liveTasks k (tasks s) \<le> 1"
      "k \<notin> set (initialized s) \<Longrightarrow> liveTasks k (tasks s) = 0 \<and> k \<notin> set (applies s)"
      by (simp_all add: tracked_def)
    from applySettled_live[of k tid i r s] t(1)
    have a: "liveTasks k (tasks (applySettled tid i r s)) \<le> 1" by simp
    have b: "liveTasks k (tasks (applySettled tid i r s)) = 0 \<and> k \<notin> set (applies s)"
      if n: "k \<notin> set (initialized s)"
      using applySettled_live[of k tid i r s] t(2)[OF n] by simp
    from a b
    show "liveTasks k (tasks (applySettled tid i r s)) \<le> 1
      \<and> (k \<notin> set (initialized (applySettled tid i r s)) \<longrightarrow>
           liveTasks k (tasks (applySettled tid i r s)) = 0
           \<and> k \<notin> set (applies (applySettled tid i r s)))"
      by (simp add: applySettled_frame)
  qed
  with ApplySettled show ?thesis by (simp add: tracked_def)
qed

lemma run_tracked: "tracked s \<Longrightarrow> tracked (run P es s)"
  by (induction es arbitrary: s) (simp_all add: step_tracked)

lemma init_tracked: "tracked (init w)"
  by (simp add: tracked_def init_def liveTasks_def)

lemma step_quiet:
  assumes "quiet k s"
  shows "quiet k (step P ev s)
     \<and> count_list (reads (step P ev s)) k = count_list (reads s) k
     \<and> count_list (applies (step P ev s)) k = count_list (applies s) k"
proof (cases ev)
  case (World w)
  with assms show ?thesis by (simp add: quiet_def)
next
  case (Call ep)
  with assms show ?thesis by (simp add: quiet_def call_frame liveTasks_append)
next
  case (AuthSettled r)
  with assms show ?thesis by (simp add: quiet_def authSettled_frame)
next
  case (Resume tid)
  from assms have q: "k \<in> set (initialized s)" "liveTasks k (tasks s) = 0"
    by (simp_all add: quiet_def)
  from resume_live[of k tid s] q(1) obtain d where
    d: "liveTasks k (tasks (resume tid s)) = liveTasks k (tasks s) + d" "d = 0"
      "count_list (reads (resume tid s)) k = count_list (reads s) k"
      "set (initialized s) \<subseteq> set (initialized (resume tid s))"
    by blast
  from d(4) q(1) have "k \<in> set (initialized (resume tid s))" by blast
  with d(1-3) q(2) Resume show ?thesis by (simp add: quiet_def resume_builder)
next
  case (ReadSettled tid i r)
  from assms have q: "k \<in> set (initialized s)" "liveTasks k (tasks s) = 0"
    by (simp_all add: quiet_def)
  from readSettled_live[of k tid i r s] q(2)
  have a: "liveTasks k (tasks (readSettled tid i r s)) = 0" by simp
  from readSettled_live[of k tid i r s] q(2)
  have b: "count_list (applies (readSettled tid i r s)) k = count_list (applies s) k"
    by auto
  from a b q ReadSettled show ?thesis by (simp add: quiet_def readSettled_frame)
next
  case (ApplySettled tid i r)
  from assms have q: "k \<in> set (initialized s)" "liveTasks k (tasks s) = 0"
    by (simp_all add: quiet_def)
  from applySettled_live[of k tid i r s] q(2)
  have a: "liveTasks k (tasks (applySettled tid i r s)) = 0" by simp
  from a q ApplySettled show ?thesis by (simp add: quiet_def applySettled_frame)
qed

lemma run_quiet:
  "quiet k s \<Longrightarrow> quiet k (run P es s)
     \<and> count_list (reads (run P es s)) k = count_list (reads s) k
     \<and> count_list (applies (run P es s)) k = count_list (applies s) k"
proof (induction es arbitrary: s)
  case Nil
  then show ?case by simp
next
  case (Cons e es)
  from step_quiet[OF Cons.prems, of P e] Cons.IH[of "step P e s"] show ?case by simp
qed


subsection \<open>No second attempt\<close>

lemma reachable_live_initialized:
  assumes "tracked s" "tid < length (tasks s)" "tasks s ! tid = AwaitAll subs"
    "i < length subs" "subs ! i = (k, ph)" "ph \<noteq> Finished"
  shows "k \<in> set (initialized s)" "liveTasks k (tasks s) = 1"
proof -
  from live_sub_counted[OF assms(2-4), of k] assms(5,6)
  have "1 \<le> liveTasks k (tasks s)" by simp
  moreover from assms(1) have "liveTasks k (tasks s) \<le> 1"
    "k \<notin> set (initialized s) \<Longrightarrow> liveTasks k (tasks s) = 0"
    by (simp_all add: tracked_def)
  ultimately show "k \<in> set (initialized s)" "liveTasks k (tasks s) = 1" by auto
qed

lemma failure_quiets:
  assumes "tracked s" "tid < length (tasks s)" "tasks s ! tid = AwaitAll subs"
    "i < length subs"
    "(\<exists>ini. subs ! i = (k, AwaitRead ini) \<and> f = ReadSettled tid i (Inl e))
     \<or> (subs ! i = (k, AwaitApply) \<and> f = ApplySettled tid i (Inl e))"
  shows "quiet k (step P f s)" "reads (step P f s) = reads s"
    "applies (step P f s) = applies s"
    "logged (step P f s) = logged s @ [InfoErrorWhileInitializing k, LogError e]"
proof -
  from assms(5) obtain ph where ph: "subs ! i = (k, ph)" "ph \<noteq> Finished" by auto
  note li = reachable_live_initialized[OF assms(1-4) ph]
  from assms(5) have st: "step P f s = (catchError k e s)
      \<lparr>tasks := (tasks s)[tid := AwaitAll (subs[i := (k, Finished)])]\<rparr>"
    using assms(2-4) by (auto simp: readSettled_def applySettled_def)
  from liveTasks_sub_update[OF assms(2-4), of k "(k, Finished)"] ph li(2)
  have "liveTasks k ((tasks s)[tid := AwaitAll (subs[i := (k, Finished)])]) = 0" by simp
  with li(1) st show "quiet k (step P f s)" by (simp add: quiet_def catchError_def)
  from st show "reads (step P f s) = reads s" "applies (step P f s) = applies s"
    "logged (step P f s) = logged s @ [InfoErrorWhileInitializing k, LogError e]"
    by (simp_all add: catchError_def)
qed

text \<open>
  Claim C6. When the read or the apply of a resource fails, the \<open>catch\<close> logs the
  error and leaves the resource in \<open>initialized\<close>; whatever happens afterwards, no
  further read and no further apply is made for it.
\<close>

theorem failed_resource_not_retried:
  assumes "tid < length (tasks (run P evs (init w)))"
    and "tasks (run P evs (init w)) ! tid = AwaitAll subs"
    and "i < length subs"
    and "(\<exists>ini. subs ! i = (K, AwaitRead ini) \<and> f = ReadSettled tid i (Inl e))
         \<or> (subs ! i = (K, AwaitApply) \<and> f = ApplySettled tid i (Inl e))"
  shows "K \<in> set (initialized (run P (evs @ f # evs') (init w)))
     \<and> count_list (reads (run P (evs @ f # evs') (init w))) K
         = count_list (reads (run P evs (init w))) K
     \<and> count_list (applies (run P (evs @ f # evs') (init w))) K
         = count_list (applies (run P evs (init w))) K
     \<and> logged (run P (evs @ [f]) (init w))
         = logged (run P evs (init w)) @ [InfoErrorWhileInitializing K, LogError e]"
proof -
  let ?s = "run P evs (init w)"
  have t: "tracked ?s" by (rule run_tracked[OF init_tracked])
  note fq = failure_quiets[OF t assms, of P]
  from run_quiet[OF fq(1), of P evs'] fq(2-4)
  show ?thesis by (simp add: run_append quiet_def)
qed


theorem failed_resource_not_retried_witness:
  "tasks (run webPlatform
       [Call InitializeOtherResources, AuthSettled (Inr (Some aSession)), Resume 0]
       (init freshServices)) ! 0
     = AwaitAll [(Keybindings, AwaitRead KeybindingsInitializer),
                 (Snippets, AwaitRead SnippetsInitializer)]
   \<and> Snippets \<in> set (initialized (run webPlatform
       ([Call InitializeOtherResources, AuthSettled (Inr (Some aSession)), Resume 0]
         @ ReadSettled 0 1 (Inl ''network'') # [Call InitializeOtherResources, Resume 1])
       (init freshServices)))
   \<and> count_list (reads (run webPlatform
       ([Call InitializeOtherResources, AuthSettled (Inr (Some aSession)), Resume 0]
         @ ReadSettled 0 1 (Inl ''network'') # [Call InitializeOtherResources, Resume 1])
       (init freshServices))) Snippets = 1
   \<and> count_list (applies (run webPlatform
       ([Call InitializeOtherResources, AuthSettled (Inr (Some aSession)), Resume 0]
         @ ReadSettled 0 1 (Inl ''network'') # [Call InitializeOtherResources, Resume 1])
       (init freshServices))) Snippets = 0"
proof -
  let ?evs = "[Call InitializeOtherResources, AuthSettled (Inr (Some aSession)), Resume 0]"
  let ?subs = "[(Keybindings, AwaitRead KeybindingsInitializer),
                (Snippets, AwaitRead SnippetsInitializer)]"
  have h: "0 < length (tasks (run webPlatform ?evs (init freshServices)))"
    "tasks (run webPlatform ?evs (init freshServices)) ! 0 = AwaitAll ?subs"
    "1 < length ?subs"
    "(\<exists>ini. ?subs ! 1 = (Snippets, AwaitRead ini)
         \<and> ReadSettled 0 1 (Inl ''network'') = ReadSettled 0 1 (Inl ''network''))
     \<or> (?subs ! 1 = (Snippets, AwaitApply)
         \<and> ReadSettled 0 1 (Inl ''network'') = ApplySettled 0 1 (Inl ''network''))"
    by (simp_all add: sample_defs segment_defs)
  have c: "count_list (reads (run webPlatform ?evs (init freshServices))) Snippets = 1"
    "count_list (applies (run webPlatform ?evs (init freshServices))) Snippets = 0"
    by (simp_all add: sample_defs segment_defs)
  from failed_resource_not_retried[OF h,
      of "[Call InitializeOtherResources, Resume 1]"] h(2) c
  show ?thesis by (simp del: run.simps)
qed

text \<open>
  Claim C9. When a call of \<open>initializeExtensions\<close> without an instantiation service
  resumes with a client and \<open>Extensions\<close> not yet initialized, the \<open>try\<close> block has
  pushed \<open>Extensions\<close> before it throws; from then on no read and no apply is made for
  \<open>Extensions\<close>, whatever the later calls (also with an instantiation service).
\<close>

theorem extensions_stay_initialized:
  assumes "tid < length (tasks (run P evs (init w)))"
    and "tasks (run P evs (init w)) ! tid = AwaitClient [Extensions] None"
    and "userDataSyncStoreClientPromise (run P evs (init w)) = Fulfilled (Some c)"
    and "Extensions \<notin> set (initialized (run P evs (init w)))"
  shows "fst (tryBody None Extensions (run P evs (init w)))
          = (run P evs (init w))
              \<lparr>initialized := initialized (run P evs (init w)) @ [Extensions],
               logged := logged (run P evs (init w)) @ [TraceInitializing Extensions]\<rparr>
     \<and> snd (tryBody None Extensions (run P evs (init w)))
          = Inl ''Instantiation Service is required to initialize extension''
     \<and> Extensions \<in> set (initialized (run P (evs @ Resume tid # evs') (init w)))
     \<and> Extensions \<notin> set (reads (run P (evs @ Resume tid # evs') (init w)))
     \<and> Extensions \<notin> set (applies (run P (evs @ Resume tid # evs') (init w)))"
proof -
  let ?s = "run P evs (init w)"
  have t: "tracked ?s" by (rule run_tracked[OF init_tracked])
  have g: "guarded ?s" by (rule run_guarded[OF init_guarded])
  from t g assms(4) have z: "liveTasks Extensions (tasks ?s) = 0"
    "Extensions \<notin> set (applies ?s)" "Extensions \<notin> set (reads ?s)"
    by (auto simp: tracked_def guarded_def)
  from assms have r: "resume tid ?s =
     ?s\<lparr>initialized := initialized ?s @ [Extensions],
        logged := logged ?s @ [TraceInitializing Extensions, InfoErrorWhileInitializing Extensions,
          LogError ''Instantiation Service is required to initialize extension''],
        tasks := (tasks ?s)[tid := AwaitAll [(Extensions, Finished)]]\<rparr>"
    by (simp add: resume_def callback_def tryBody_def catchError_def)
  from liveTasks_task_update[OF assms(1), of Extensions "AwaitAll [(Extensions, Finished)]"]
    assms(2) z(1)
  have "liveTasks Extensions ((tasks ?s)[tid := AwaitAll [(Extensions, Finished)]]) = 0"
    by simp
  with r have q: "quiet Extensions (step P (Resume tid) ?s)" by (simp add: quiet_def)
  from r z have c: "count_list (reads (step P (Resume tid) ?s)) Extensions = 0"
    "count_list (applies (step P (Resume tid) ?s)) Extensions = 0"
    by (simp_all add: count_list_0_iff)
  have b: "fst (tryBody None Extensions ?s)
          = ?s\<lparr>initialized := initialized ?s @ [Extensions],
               logged := logged ?s @ [TraceInitializing Extensions]\<rparr>"
    "snd (tryBody None Extensions ?s)
          = Inl ''Instantiation Service is required to initialize extension''"
    using assms(4) by (simp_all add: tryBody_def)
  from run_quiet[OF q, of P evs'] c b
  show ?thesis by (simp add: run_append quiet_def count_list_0_iff del: step.simps)
qed


theorem extensions_stay_initialized_witness:
  "tasks (run webPlatform
       [Call (InitializeExtensions None), AuthSettled (Inr (Some aSession))]
       (init freshServices)) ! 0 = AwaitClient [Extensions] None
   \<and> Extensions \<in> set (initialized (run webPlatform
       ([Call (InitializeExtensions None), AuthSettled (Inr (Some aSession))]
         @ Resume 0 # [Call (InitializeExtensions (Some (InstantiationService None))), Resume 1])
       (init freshServices)))
   \<and> Extensions \<notin> set (reads (run webPlatform
       ([Call (InitializeExtensions None), AuthSettled (Inr (Some aSession))]
         @ Resume 0 # [Call (InitializeExtensions (Some (InstantiationService None))), Resume 1])
       (init freshServices)))
   \<and> Extensions \<notin> set (applies (run webPlatform
       ([Call (InitializeExtensions None), AuthSettled (Inr (Some aSession))]
         @ Resume 0 # [Call (InitializeExtensions (Some (InstantiationService None))), Resume 1])
       (init freshServices)))"
proof -
  let ?evs = "[Call (InitializeExtensions None), AuthSettled (Inr (Some aSession))]"
  have h: "0 < length (tasks (run webPlatform ?evs (init freshServices)))"
    "tasks (run webPlatform ?evs (init freshServices)) ! 0 = AwaitClient [Extensions] None"
    "userDataSyncStoreClientPromise (run webPlatform ?evs (init freshServices))
       = Fulfilled (Some \<lparr>endpoint = ''https://sync.example'', token = ''token'',
                            authProvider = ''provider''\<rparr>)"
    "Extensions \<notin> set (initialized (run webPlatform ?evs (init freshServices)))"
    by (simp_all add: sample_defs segment_defs)
  from extensions_stay_initialized[OF h,
      of "[Call (InitializeExtensions (Some (InstantiationService None))), Resume 1]"] h(2)
  show ?thesis by (simp del: run.simps)
qed

subsection \<open>The callbacks of a batch are independent\<close>

lemma grows_refl: "grows s s"
  by (simp add: grows_def)

lemma grows_trans: "grows s s' \<Longrightarrow> grows s' s'' \<Longrightarrow> grows s s''"
  by (auto simp: grows_def)

lemma callback_grows:
  assumes "callback i r s = (s', ph)"
  shows "grows s s'" "set (initialized s') \<subseteq> insert r (set (initialized s))"
  using assms
  by (auto simp: grows_def callback_def tryBody_def catchError_def Let_def
      split: if_splits sum.splits)

lemma mapResources_grows: "mapResources i rs s = (s', subs) \<Longrightarrow> grows s s'"
proof (induction rs arbitrary: s s' subs)
  case Nil
  then show ?case by (simp add: grows_def)
next
  case (Cons r rs)
  obtain s1 ph where c: "callback i r s = (s1, ph)" by (cases "callback i r s")
  obtain s2 subs2 where m: "mapResources i rs s1 = (s2, subs2)"
    by (cases "mapResources i rs s1")
  from Cons.prems c m have e: "s' = s2" by simp
  from grows_trans[OF callback_grows(1)[OF c] Cons.IH[OF m]] e show ?case by simp
qed

lemma resume_grows: "grows s (resume tid s)"
  using mapResources_grows[of _ _ s]
  by (auto simp: resume_def grows_def
      split: task.splits clientPromise.splits option.splits prod.splits)

lemma step_grows: "grows s (step P ev s)"
proof (cases ev)
  case (Call ep)
  then show ?thesis
    by (cases "userDataSyncStoreClientPromise s = Unset")
       (auto simp: grows_def call_frame call_builder create_set create_unset
          startBuilder_def Let_def probe_def skip_def split: option.splits)
next
  case (AuthSettled r)
  then show ?thesis
    by (auto simp: grows_def authSettled_frame authSettled_def Let_def skip_def
        split: clientPromise.splits option.splits sum.splits)
next
  case (Resume tid)
  then show ?thesis by (simp add: resume_grows)
next
  case (ReadSettled tid i r)
  with readSettled_cases[of tid i r s] show ?thesis
    by (auto simp: grows_def catchError_def)
next
  case (ApplySettled tid i r)
  with applySettled_cases[of tid i r s] show ?thesis
    by (auto simp: grows_def catchError_def)
qed (simp add: grows_def)

lemma run_grows: "grows s (run P es s)"
proof (induction es arbitrary: s)
  case Nil
  show ?case by (simp add: grows_refl)
next
  case (Cons e es)
  from grows_trans[OF step_grows[of s P e] Cons.IH[of "step P e s"]] show ?case by simp
qed

lemma resume_other:
  assumes "tid < length (tasks s)" "tasks s ! tid = AwaitAll subs"
  shows "tid < length (tasks (resume t s)) \<and> tasks (resume t s) ! tid = AwaitAll subs"
proof (cases "t = tid")
  case True
  with assms show ?thesis by (simp add: resume_def)
next
  case False
  with assms mapResources_frame[of _ _ s] show ?thesis
    by (auto simp: resume_def
        split: task.splits clientPromise.splits option.splits prod.splits)
qed

lemma step_untouched:
  assumes "tid < length (tasks s)" "tasks s ! tid = AwaitAll subs" "j < length subs"
    "elsewhere tid j ev"
  shows "\<exists>subs'. tid < length (tasks (step P ev s)) \<and> tasks (step P ev s) ! tid = AwaitAll subs'
           \<and> j < length subs' \<and> subs' ! j = subs ! j"
proof (cases ev)
  case (World w)
  with assms show ?thesis by simp
next
  case (Call ep)
  with assms show ?thesis by (simp add: call_frame nth_append)
next
  case (AuthSettled r)
  with assms show ?thesis by (simp add: authSettled_frame)
next
  case (Resume t)
  with assms resume_other[OF assms(1,2), of t] show ?thesis by simp
next
  case (ReadSettled t i r)
  with readSettled_cases[of t i r s] assms show ?thesis
    by (cases "t = tid") auto
next
  case (ApplySettled t i r)
  with applySettled_cases[of t i r s] assms show ?thesis
    by (cases "t = tid") auto
qed

lemma run_untouched:
  "list_all (elsewhere tid j) es \<Longrightarrow> tid < length (tasks s) \<Longrightarrow>
   tasks s ! tid = AwaitAll subs \<Longrightarrow> j < length subs \<Longrightarrow>
   \<exists>subs'. tid < length (tasks (run P es s)) \<and> tasks (run P es s) ! tid = AwaitAll subs'
           \<and> j < length subs' \<and> subs' ! j = subs ! j"
proof (induction es arbitrary: s subs)
  case Nil
  then show ?case by simp
next
  case (Cons e es)
  from Cons.prems(1) have e: "elsewhere tid j e" "list_all (elsewhere tid j) es" by simp_all
  from step_untouched[OF Cons.prems(2-4) e(1), of P] obtain subs1 where
    s1: "tid < length (tasks (step P e s))" "tasks (step P e s) ! tid = AwaitAll subs1"
      "j < length subs1" "subs1 ! j = subs ! j" by blast
  from Cons.IH[OF e(2) s1(1-3)] s1(4) show ?case by simp
qed

lemma mapResources_sub:
  "mapResources inst rs s = (s', subs) \<Longrightarrow> j < length rs \<Longrightarrow> rs ! j = J \<Longrightarrow>
   J \<notin> set (initialized s) \<Longrightarrow> J \<notin> set (take j rs) \<Longrightarrow>
   createSyncResourceInitializer J inst = Inr ini \<Longrightarrow>
   subs ! j = (J, AwaitRead ini) \<and> J \<in> set (reads s')"
proof (induction rs arbitrary: s s' subs j)
  case Nil
  then show ?case by simp
next
  case (Cons r rs)
  obtain s1 ph where c: "callback inst r s = (s1, ph)" by (cases "callback inst r s")
  obtain s2 subs2 where m: "mapResources inst rs s1 = (s2, subs2)"
    by (cases "mapResources inst rs s1")
  from Cons.prems(1) c m have e: "s' = s2" "subs = (r, ph) # subs2" by simp_all
  show ?case
  proof (cases j)
    case 0
    with Cons.prems have rJ: "r = J" by simp
    with c Cons.prems(4,6) have "ph = AwaitRead ini" "J \<in> set (reads s1)"
      by (auto simp: callback_def tryBody_def Let_def split: if_splits sum.splits)
    with mapResources_grows[OF m] e 0 rJ show ?thesis by (auto simp: grows_def)
  next
    case (Suc j')
    with Cons.prems have p: "j' < length rs" "rs ! j' = J" "r \<noteq> J" "J \<notin> set (take j' rs)"
      by auto
    from callback_grows(2)[OF c] p(3) Cons.prems(4) have "J \<notin> set (initialized s1)" by auto
    from Cons.IH[OF m p(1,2) this p(4) Cons.prems(6)] e Suc show ?thesis by simp
  qed
qed

text \<open>
  Claim C5. Let a call of \<open>initialize\<close> resume with a client, and let \<open>J\<close> be a
  resource of its batch that is not initialized yet and whose initializer can be built.
  Then \<open>J\<close> is read; and whatever happens to the other callbacks of the batch and to
  other calls in the meantime (their reads and applies may fail, their initializers may
  fail to build), once the read and the apply of \<open>J\<close> succeed, \<open>J\<close> has been read,
  applied and logged as initialized.
\<close>

theorem sibling_failure_isolated:
  assumes "tid < length (tasks s)"
    and "tasks s ! tid = AwaitClient rs inst"
    and "userDataSyncStoreClientPromise s = Fulfilled (Some c)"
    and "j < length rs" and "rs ! j = J"
    and "J \<notin> set (initialized s)" and "J \<notin> set (take j rs)"
    and "createSyncResourceInitializer J inst = Inr ini"
    and "list_all (elsewhere tid j) es1" and "list_all (elsewhere tid j) es2"
  shows "J \<in> set (reads (run P (Resume tid # es1 @ ReadSettled tid j (Inr d) # es2
                              @ [ApplySettled tid j (Inr ())]) s))
     \<and> J \<in> set (applies (run P (Resume tid # es1 @ ReadSettled tid j (Inr d) # es2
                              @ [ApplySettled tid j (Inr ())]) s))
     \<and> InfoInitialized J \<in> set (logged (run P (Resume tid # es1 @ ReadSettled tid j (Inr d)
                              # es2 @ [ApplySettled tid j (Inr ())]) s))"
proof -
  obtain s0 subs where m: "mapResources inst rs s = (s0, subs)"
    by (cases "mapResources inst rs s")
  define s1 where "s1 = step P (Resume tid) s"
  define s2 where "s2 = run P es1 s1"
  define s3 where "s3 = step P (ReadSettled tid j (Inr d)) s2"
  define s4 where "s4 = run P es2 s3"
  define s5 where "s5 = step P (ApplySettled tid j (Inr ())) s4"
  from mapResources_frame[OF m] have f: "tasks s0 = tasks s" "length subs = length rs"
    by simp_all
  from assms(1-3) m f have r1: "s1 = s0\<lparr>tasks := (tasks s)[tid := AwaitAll subs]\<rparr>"
    by (simp add: s1_def resume_def)
  from mapResources_sub[OF m assms(4-8)]
  have sj: "subs ! j = (J, AwaitRead ini)" "J \<in> set (reads s0)" by simp_all
  from r1 assms(1) have t1: "tid < length (tasks s1)" "tasks s1 ! tid = AwaitAll subs"
    by simp_all
  from f assms(4) have j1: "j < length subs" by simp
  from r1 sj(2) have rd1: "J \<in> set (reads s1)" by simp
  from run_untouched[OF assms(9) t1 j1, of P] sj(1) obtain subs2 where
    t2: "tid < length (tasks s2)" "tasks s2 ! tid = AwaitAll subs2" "j < length subs2"
      "subs2 ! j = (J, AwaitRead ini)"
    by (auto simp: s2_def)
  from t2 have r3: "s3 = s2\<lparr>applies := applies s2 @ [J],
       tasks := (tasks s2)[tid := AwaitAll (subs2[j := (J, AwaitApply)])]\<rparr>"
    by (simp add: s3_def readSettled_def)
  from r3 t2 have t3: "tid < length (tasks s3)"
    "tasks s3 ! tid = AwaitAll (subs2[j := (J, AwaitApply)])"
    "j < length (subs2[j := (J, AwaitApply)])"
    by simp_all
  from r3 have ap3: "J \<in> set (applies s3)" by simp
  from run_untouched[OF assms(10) t3, of P] t2(3) obtain subs4 where
    t4: "tid < length (tasks s4)" "tasks s4 ! tid = AwaitAll subs4" "j < length subs4"
      "subs4 ! j = (J, AwaitApply)"
    by (auto simp: s4_def)
  from t4 have r5: "logged s5 = logged s4 @ [InfoInitialized J]"
    by (simp add: s5_def applySettled_def)
  have g: "grows s1 s2" "grows s2 s3" "grows s3 s4" "grows s4 s5"
    by (simp_all add: s2_def s3_def s4_def s5_def run_grows step_grows del: step.simps)
  from g rd1 ap3 r5 have "J \<in> set (reads s5)" "J \<in> set (applies s5)"
    "InfoInitialized J \<in> set (logged s5)"
    by (auto simp: grows_def)
  moreover have "run P (Resume tid # es1 @ ReadSettled tid j (Inr d) # es2
                              @ [ApplySettled tid j (Inr ())]) s = s5"
    by (simp add: s1_def s2_def s3_def s4_def s5_def run_append del: step.simps)
  ultimately show ?thesis by simp
qed


theorem sibling_failure_isolated_witness:
  "tasks (run webPlatform [Call InitializeOtherResources, AuthSettled (Inr (Some aSession))]
       (init freshServices)) ! 0 = AwaitClient [Keybindings, Snippets] None
   \<and> list_all (elsewhere 0 0) [ReadSettled 0 1 (Inl ''network'')]
   \<and> Keybindings \<in> set (reads (run webPlatform
       (Resume 0 # [ReadSettled 0 1 (Inl ''network'')] @ ReadSettled 0 0 (Inr ''{}'') # []
          @ [ApplySettled 0 0 (Inr ())])
       (run webPlatform [Call InitializeOtherResources, AuthSettled (Inr (Some aSession))]
          (init freshServices))))
   \<and> Keybindings \<in> set (applies (run webPlatform
       (Resume 0 # [ReadSettled 0 1 (Inl ''network'')] @ ReadSettled 0 0 (Inr ''{}'') # []
          @ [ApplySettled 0 0 (Inr ())])
       (run webPlatform [Call InitializeOtherResources, AuthSettled (Inr (Some aSession))]
          (init freshServices))))
   \<and> InfoInitialized Keybindings \<in> set (logged (run webPlatform
       (Resume 0 # [ReadSettled 0 1 (Inl ''network'')] @ ReadSettled 0 0 (Inr ''{}'') # []
          @ [ApplySettled 0 0 (Inr ())])
       (run webPlatform [Call InitializeOtherResources, AuthSettled (Inr (Some aSession))]
          (init freshServices))))
   \<and> LogError ''network'' \<in> set (logged (run webPlatform
       (Resume 0 # [ReadSettled 0 1 (Inl ''network'')] @ ReadSettled 0 0 (Inr ''{}'') # []
          @ [ApplySettled 0 0 (Inr ())])
       (run webPlatform [Call InitializeOtherResources, AuthSettled (Inr (Some aSession))]
          (init freshServices))))"
proof -
  let ?s = "run webPlatform [Call InitializeOtherResources, AuthSettled (Inr (Some aSession))]
       (init freshServices)"
  let ?c = "\<lparr>endpoint = ''https://sync.example'', token = ''token'',
             authProvider = ''provider''\<rparr>"
  have h: "0 < length (tasks ?s)" "tasks ?s ! 0 = AwaitClient [Keybindings, Snippets] None"
    "userDataSyncStoreClientPromise ?s = Fulfilled (Some ?c)"
    "0 < length [Keybindings, Snippets]" "[Keybindings, Snippets] ! 0 = Keybindings"
    "Keybindings \<notin> set (initialized ?s)"
    "Keybindings \<notin> set (take 0 [Keybindings, Snippets])"
    "createSyncResourceInitializer Keybindings None = Inr KeybindingsInitializer"
    "list_all (elsewhere 0 0) [ReadSettled 0 1 (Inl ''network'')]"
    "list_all (elsewhere 0 0) []"
    by (simp_all add: sample_defs segment_defs)
  have e: "LogError ''network'' \<in> set (logged (run webPlatform
       (Resume 0 # [ReadSettled 0 1 (Inl ''network'')] @ ReadSettled 0 0 (Inr ''{}'') # []
          @ [ApplySettled 0 0 (Inr ())]) ?s))"
    by (simp add: sample_defs segment_defs)
  from sibling_failure_isolated[OF h, of webPlatform "''{}''"] h(2,9) e
  show ?thesis by (simp only: simp_thms)
qed

subsection \<open>The two plain entry points\<close>

lemma step_background:
  assumes "background ev"
  shows "initialized (step P ev s) = initialized s"
    "userDataSyncStoreClientPromise (step P ev s) = userDataSyncStoreClientPromise s"
    "reads (step P ev s) = reads s"
    "length (tasks (step P ev s)) = length (tasks s)"
    "tid < length (tasks s) \<Longrightarrow> tasks s ! tid = AwaitClient rs i \<Longrightarrow>
       tasks (step P ev s) ! tid = AwaitClient rs i"
proof -
  show "initialized (step P ev s) = initialized s"
    "userDataSyncStoreClientPromise (step P ev s) = userDataSyncStoreClientPromise s"
    "reads (step P ev s) = reads s"
    "length (tasks (step P ev s)) = length (tasks s)"
    using assms by (cases ev; simp add: readSettled_frame applySettled_frame)+
  show "tasks (step P ev s) ! tid = AwaitClient rs i"
    if h: "tid < length (tasks s)" "tasks s ! tid = AwaitClient rs i"
  proof (cases ev)
    case (World w)
    with h show ?thesis by simp
  next
    case (ReadSettled t j r)
    with readSettled_cases[of t j r s] h show ?thesis
      by (cases "t = tid") auto
  next
    case (ApplySettled t j r)
    with applySettled_cases[of t j r s] h show ?thesis
      by (cases "t = tid") auto
  qed (use assms in simp_all)
qed

lemma run_background:
  "list_all background es \<Longrightarrow>
     initialized (run P es s) = initialized s
     \<and> userDataSyncStoreClientPromise (run P es s) = userDataSyncStoreClientPromise s
     \<and> reads (run P es s) = reads s
     \<and> length (tasks (run P es s)) = length (tasks s)
     \<and> (tid < length (tasks s) \<and> tasks s ! tid = AwaitClient rs i \<longrightarrow>
          tasks (run P es s) ! tid = AwaitClient rs i)"
proof (induction es arbitrary: s)
  case Nil
  then show ?case by simp
next
  case (Cons e es)
  from Cons.prems have b: "background e" "list_all background es" by simp_all
  note st = step_background[OF b(1)]
  from Cons.IH[OF b(2), of "step P e s"] st show ?case by simp
qed

lemma callback_seeded:
  assumes "callback inst r s = (s', ph)"
    "r \<in> set (initialized s) \<or> (r = Extensions \<and> inst = None)"
  shows "reads s' = reads s" "set (initialized s) \<subseteq> set (initialized s')"
  using assms
  by (auto simp: callback_def tryBody_def catchError_def Let_def split: if_splits sum.splits)

lemma mapResources_seeded:
  "mapResources inst rs s = (s', subs) \<Longrightarrow>
   (\<forall>r \<in> set rs. r \<in> set (initialized s) \<or> (r = Extensions \<and> inst = None)) \<Longrightarrow>
   reads s' = reads s"
proof (induction rs arbitrary: s s' subs)
  case Nil
  then show ?case by simp
next
  case (Cons r rs)
  obtain s1 ph where c: "callback inst r s = (s1, ph)" by (cases "callback inst r s")
  obtain s2 subs2 where m: "mapResources inst rs s1 = (s2, subs2)"
    by (cases "mapResources inst rs s1")
  from Cons.prems(1) c m have e: "s' = s2" by simp
  from Cons.prems(2) have h: "r \<in> set (initialized s) \<or> (r = Extensions \<and> inst = None)"
    by simp
  note cb = callback_seeded[OF c h]
  from Cons.prems(2) cb(2)
  have "\<forall>r \<in> set rs. r \<in> set (initialized s1) \<or> (r = Extensions \<and> inst = None)"
    by auto
  from Cons.IH[OF m this] cb(1) e show ?case by simp
qed

lemma resume_seeded:
  assumes "seeded s"
  shows "reads (resume tid s) = reads s"
proof (cases "tid < length (tasks s)")
  case False
  then show ?thesis by (simp add: resume_def)
next
  case True
  then have mem: "tasks s ! tid \<in> set (tasks s)" by simp
  show ?thesis
  proof (cases "tasks s ! tid")
    case (AwaitClient rs inst)
    have "\<forall>r \<in> set rs. r \<in> set (initialized s) \<or> (r = Extensions \<and> inst = None)"
    proof
      fix r assume r: "r \<in> set rs"
      show "r \<in> set (initialized s) \<or> (r = Extensions \<and> inst = None)"
      proof (cases r)
        case Extensions
        with r mem AwaitClient assms show ?thesis
          by (cases inst) (auto simp: seeded_def extensionsUnread_def)
      qed (use assms in \<open>auto simp: seeded_def\<close>)
    qed
    from mapResources_seeded[OF _ this] True AwaitClient show ?thesis
      by (auto simp: resume_def split: clientPromise.splits option.splits prod.splits)
  next
    case (AwaitAll subs)
    with True show ?thesis by (simp add: resume_def)
  next
    case (Settled r)
    with True show ?thesis by (simp add: resume_def)
  qed
qed

lemma step_initialized_mono: "set (initialized s) \<subseteq> set (initialized (step P ev s))"
proof (cases ev)
  case (Resume tid)
  with resume_live[of Settings tid s] show ?thesis by auto
qed (simp_all add: call_frame authSettled_frame readSettled_frame applySettled_frame)

lemma step_seeded:
  assumes "noCapability ev" "seeded s"
  shows "seeded (step P ev s) \<and> reads (step P ev s) = reads s"
proof -
  from assms have "extensionsUnread (step P ev s)"
    by (simp add: seeded_def step_extensionsUnread)
  with step_initialized_mono[of s P ev] assms(2) have a: "seeded (step P ev s)"
    by (auto simp: seeded_def)
  have "reads (step P ev s) = reads s"
  proof (cases ev)
    case (Resume tid)
    with resume_seeded[OF assms(2)] show ?thesis by simp
  qed (simp_all add: call_frame authSettled_frame readSettled_frame applySettled_frame)
  with a show ?thesis by simp
qed

lemma run_seeded:
  "list_all noCapability es \<Longrightarrow> seeded s \<Longrightarrow> reads (run P es s) = reads s"
proof (induction es arbitrary: s)
  case Nil
  then show ?case by simp
next
  case (Cons e es)
  from Cons.prems have n: "noCapability e" "list_all noCapability es" by simp_all
  from step_seeded[OF n(1) Cons.prems(2), of P] Cons.IH[OF n(2), of "step P e s"]
  show ?case by simp
qed

lemma background_noCapability: "background ev \<Longrightarrow> noCapability ev"
  by (cases ev) simp_all

lemma list_background_noCapability: "list_all background es \<Longrightarrow> list_all noCapability es"
  by (induction es) (simp_all add: background_noCapability)


lemma first_call_passing:
  assumes "isWeb P" "optional (envOptions w) enableSyncByDefault = Some True"
    "isNew w GLOBAL" "isNew w WORKSPACE" "syncStore w = Some st"
    "optional (envOptions w) credentialsProvider \<noteq> None"
  shows "userDataSyncStoreClientPromise (step P (Call ep) (init w)) = PendingAuth st"
    "tasks (step P (Call ep) (init w)) = [AwaitClient (fst (batch ep)) (snd (batch ep))]"
    "initialized (step P (Call ep) (init w)) = []" "reads (step P (Call ep) (init w)) = []"
  using assms
  by (simp_all add: call_frame call_builder create_unset[of "init w", simplified init_def, simplified]
      init_def startBuilder_def Let_def probe_def skip_def)

lemma auth_success:
  assumes "userDataSyncStoreClientPromise s = PendingAuth st" "buildClient P st a = Inr c"
  shows "userDataSyncStoreClientPromise (step P (AuthSettled (Inr (Some a))) s)
           = Fulfilled (Some c)"
  using assms by (simp add: authSettled_def)

lemma later_call:
  assumes "userDataSyncStoreClientPromise s \<noteq> Unset"
  shows "userDataSyncStoreClientPromise (step P (Call ep) s) = userDataSyncStoreClientPromise s"
    "tasks (step P (Call ep) s) = tasks s @ [AwaitClient (fst (batch ep)) (snd (batch ep))]"
    "initialized (step P (Call ep) s) = initialized s" "reads (step P (Call ep) s) = reads s"
  using assms by (simp_all add: call_frame call_builder create_set)

lemma resume_required:
  assumes "tid < length (tasks s)" "tasks s ! tid = AwaitClient [Settings, GlobalState] None"
    "userDataSyncStoreClientPromise s = Fulfilled (Some c)" "initialized s = []" "reads s = []"
  shows "initialized (step P (Resume tid) s) = [Settings, GlobalState]"
    "reads (step P (Resume tid) s) = [Settings, GlobalState]"
    "userDataSyncStoreClientPromise (step P (Resume tid) s) = Fulfilled (Some c)"
    "length (tasks (step P (Resume tid) s)) = length (tasks s)"
  using assms by (simp_all add: resume_def callback_def tryBody_def)

lemma resume_other_resources:
  assumes "tid < length (tasks s)" "tasks s ! tid = AwaitClient [Keybindings, Snippets] None"
    "userDataSyncStoreClientPromise s = Fulfilled (Some c)"
    "initialized s = [Settings, GlobalState]" "reads s = [Settings, GlobalState]"
  shows "initialized (step P (Resume tid) s) = [Settings, GlobalState, Keybindings, Snippets]"
    "reads (step P (Resume tid) s) = [Settings, GlobalState, Keybindings, Snippets]"
  using assms by (simp_all add: resume_def callback_def tryBody_def)

lemma create_not_extensions:
  "r \<noteq> Extensions \<Longrightarrow> \<exists>ini. createSyncResourceInitializer r i = Inr ini"
  by (cases r) simp_all

lemma callback_readComplete_conj:
  assumes "callback i r s = (s', ph)" "readComplete s"
  shows "readComplete s' \<and> r \<in> set (initialized s')
     \<and> set (initialized s) \<subseteq> set (initialized s')"
proof (cases "r \<in> set (initialized s)")
  case True
  with assms have e: "initialized s' = initialized s" "reads s' = reads s"
    by (auto simp: callback_def tryBody_def)
  with assms(2) True show ?thesis by (simp add: readComplete_def)
next
  case False
  show ?thesis
  proof (cases "createSyncResourceInitializer r i")
    case (Inl e)
    with create_not_extensions[of r i] have x: "r = Extensions" by auto
    from Inl False assms(1) have e: "initialized s' = initialized s @ [r]" "reads s' = reads s"
      by (auto simp: callback_def tryBody_def catchError_def)
    with assms(2) x show ?thesis by (auto simp: readComplete_def)
  next
    case (Inr ini)
    with False assms(1)
    have e: "initialized s' = initialized s @ [r]" "reads s' = reads s @ [r]"
      by (auto simp: callback_def tryBody_def)
    with assms(2) show ?thesis by (auto simp: readComplete_def)
  qed
qed

lemma callback_readComplete:
  assumes "callback i r s = (s', ph)" "readComplete s"
  shows "readComplete s'" "r \<in> set (initialized s')"
    "set (initialized s) \<subseteq> set (initialized s')"
  using callback_readComplete_conj[OF assms] by simp_all

lemma mapResources_readComplete:
  "mapResources i rs s = (s', subs) \<Longrightarrow> readComplete s \<Longrightarrow>
     readComplete s' \<and> set rs \<subseteq> set (initialized s')
     \<and> set (initialized s) \<subseteq> set (initialized s')"
proof (induction rs arbitrary: s s' subs)
  case Nil
  then show ?case by simp
next
  case (Cons r rs)
  obtain s1 ph where c: "callback i r s = (s1, ph)" by (cases "callback i r s")
  obtain s2 subs2 where m: "mapResources i rs s1 = (s2, subs2)"
    by (cases "mapResources i rs s1")
  from Cons.prems(1) c m have e: "s' = s2" by simp
  note cb = callback_readComplete[OF c Cons.prems(2)]
  from Cons.IH[OF m cb(1)] cb(2,3) e show ?case by auto
qed

lemma resume_readComplete:
  assumes "readComplete s"
  shows "readComplete (resume tid s)"
proof (cases "tid < length (tasks s)")
  case False
  with assms show ?thesis by (simp add: resume_def)
next
  case True
  show ?thesis
  proof (cases "tasks s ! tid")
    case (AwaitClient rs i)
    show ?thesis
    proof (cases "userDataSyncStoreClientPromise s")
      case Unset
      with True AwaitClient assms show ?thesis by (simp add: resume_def)
    next
      case (PendingAuth st)
      with True AwaitClient assms show ?thesis by (simp add: resume_def)
    next
      case (Rejected e)
      with True AwaitClient assms show ?thesis
        by (simp add: resume_def readComplete_def)
    next
      case (Fulfilled co)
      show ?thesis
      proof (cases co)
        case None
        with Fulfilled True AwaitClient assms show ?thesis
          by (simp add: resume_def readComplete_def)
      next
        case (Some c)
        obtain s1 subs where m: "mapResources i rs s = (s1, subs)"
          by (cases "mapResources i rs s")
        from mapResources_readComplete[OF m assms] have "readComplete s1" by simp
        then have "readComplete (s1\<lparr>tasks := (tasks s1)[tid := AwaitAll subs]\<rparr>)"
          by (simp add: readComplete_def)
        with Some Fulfilled True AwaitClient m show ?thesis by (simp add: resume_def)
      qed
    qed
  next
    case (AwaitAll subs)
    with True assms show ?thesis by (simp add: resume_def)
  next
    case (Settled r)
    with True assms show ?thesis by (simp add: resume_def)
  qed
qed

lemma step_readComplete:
  assumes "readComplete s"
  shows "readComplete (step P ev s)"
proof (cases ev)
  case (World w)
  with assms show ?thesis by (simp add: readComplete_def)
next
  case (Call ep)
  with assms show ?thesis by (simp add: readComplete_def call_frame)
next
  case (AuthSettled r)
  with assms show ?thesis by (simp add: readComplete_def authSettled_frame)
next
  case (Resume tid)
  with assms show ?thesis by (simp add: resume_readComplete)
next
  case (ReadSettled tid i r)
  with assms show ?thesis by (simp add: readComplete_def readSettled_frame)
next
  case (ApplySettled tid i r)
  with assms show ?thesis by (simp add: readComplete_def applySettled_frame)
qed

lemma run_readComplete: "readComplete s \<Longrightarrow> readComplete (run P es s)"
  by (induction es arbitrary: s) (simp_all add: step_readComplete)

lemma init_readComplete: "readComplete (init w)"
  by (simp add: readComplete_def init_def)

lemma distinct_count_1: "distinct xs \<Longrightarrow> k \<in> set xs \<Longrightarrow> count_list xs k = 1"
  by (induction xs) (auto simp: count_list_0_iff)

lemma resumed_reads_once:
  assumes "tid < length (tasks (run P evs (init w)))"
    and "tasks (run P evs (init w)) ! tid = AwaitClient rs i"
    and "userDataSyncStoreClientPromise (run P evs (init w)) = Fulfilled (Some c)"
    and "k \<in> set rs" and "k \<noteq> Extensions"
  shows "count_list (reads (run P (evs @ Resume tid # evs') (init w))) k = 1"
proof -
  let ?s = "run P evs (init w)"
  let ?f = "run P (evs @ Resume tid # evs') (init w)"
  have rc: "readComplete ?s" by (rule run_readComplete[OF init_readComplete])
  obtain s1 subs where m: "mapResources i rs ?s = (s1, subs)"
    by (cases "mapResources i rs ?s")
  from mapResources_frame[OF m] have "tasks s1 = tasks ?s" by simp
  with assms(1-3) m have r: "step P (Resume tid) ?s = s1\<lparr>tasks := (tasks ?s)[tid := AwaitAll subs]\<rparr>"
    by (simp add: resume_def)
  from mapResources_readComplete[OF m rc] assms(4,5) have "k \<in> set (reads s1)"
    by (auto simp: readComplete_def)
  with r have "k \<in> set (reads (step P (Resume tid) ?s))" by simp
  with run_grows[of "step P (Resume tid) ?s" P evs'] have "k \<in> set (reads ?f)"
    by (auto simp: grows_def run_append simp del: step.simps)
  moreover have "distinct (reads ?f)"
    using run_guarded[OF init_guarded, of P "evs @ Resume tid # evs'" w]
    by (simp add: guarded_def)
  ultimately show ?thesis by (rule distinct_count_1[rotated])
qed

lemma step_pending:
  assumes "notAuth ev" "userDataSyncStoreClientPromise s = PendingAuth st"
  shows "userDataSyncStoreClientPromise (step P ev s) = PendingAuth st"
  using assms
  by (cases ev) (simp_all add: call_builder create_set resume_builder readSettled_frame
      applySettled_frame)

lemma run_pending:
  "list_all notAuth es \<Longrightarrow> userDataSyncStoreClientPromise s = PendingAuth st \<Longrightarrow>
     userDataSyncStoreClientPromise (run P es s) = PendingAuth st"
proof (induction es arbitrary: s)
  case Nil
  then show ?case by simp
next
  case (Cons e es)
  from Cons.prems have n: "notAuth e" "list_all notAuth es" by simp_all
  from Cons.IH[OF n(2) step_pending[OF n(1) Cons.prems(2), where P=P]] show ?case by simp
qed

lemma client_available:
  assumes "spec_allPass (spec_gateChain P w)" and "syncStore w = Some st"
    and "buildClient P st a = Inr c" and "list_all notAuth es0"
  shows "userDataSyncStoreClientPromise
           (run P (Call ep # es0 @ AuthSettled (Inr (Some a)) # es1) (init w))
         = Fulfilled (Some c)"
proof -
  let ?s0 = "step P (Call ep) (init w)"
  let ?s1 = "run P es0 ?s0"
  let ?s2 = "step P (AuthSettled (Inr (Some a))) ?s1"
  from first_call_runs_chain(3)[where P=P and ep=ep and w=w] assms(1,2)
  have "userDataSyncStoreClientPromise ?s0 = PendingAuth st" by (simp del: step.simps)
  from run_pending[OF assms(4) this, where P=P]
  have "userDataSyncStoreClientPromise ?s1 = PendingAuth st" .
  from auth_success[OF this assms(3)]
  have p: "userDataSyncStoreClientPromise ?s2 = Fulfilled (Some c)" .
  then have "settled (userDataSyncStoreClientPromise ?s2)" by simp
  from run_settled[OF this, where P=P and es=es1] p show ?thesis
    by (simp add: run_append del: step.simps)
qed

lemma sequential_scenario:
  assumes "spec_allPass (spec_gateChain P w)" and "syncStore w = Some st"
    and "buildClient P st a = Inr c"
    and "list_all background es0" and "list_all background es1"
    and "list_all background es2" and "list_all background es3"
    and "list_all noCapability es"
  shows "reads (run P (Call InitializeRequiredResources # es0
            @ AuthSettled (Inr (Some a)) # es1 @ Resume 0 # es2
            @ Call InitializeOtherResources # es3 @ [Resume 1]) (init w))
          = [Settings, GlobalState, Keybindings, Snippets]
     \<and> reads (run P ((Call InitializeRequiredResources # es0
            @ AuthSettled (Inr (Some a)) # es1 @ Resume 0 # es2
            @ Call InitializeOtherResources # es3 @ [Resume 1])
            @ Call InitializeRequiredResources # es) (init w))
          = [Settings, GlobalState, Keybindings, Snippets]"
proof -
  from assms(1,2) have gates: "isWeb P"
    "optional (envOptions w) enableSyncByDefault = Some True"
    "isNew w GLOBAL" "isNew w WORKSPACE" "syncStore w = Some st"
    "optional (envOptions w) credentialsProvider \<noteq> None"
    by (simp_all add: spec_gateChain_def)
  define sA where "sA = step P (Call InitializeRequiredResources) (init w)"
  define sA' where "sA' = run P es0 sA"
  define sB where "sB = step P (AuthSettled (Inr (Some a))) sA'"
  define sB' where "sB' = run P es1 sB"
  define sC where "sC = step P (Resume 0) sB'"
  define sC' where "sC' = run P es2 sC"
  define sD where "sD = step P (Call InitializeOtherResources) sC'"
  define sD' where "sD' = run P es3 sD"
  define sE where "sE = step P (Resume 1) sD'"
  let ?evs = "Call InitializeRequiredResources # es0
            @ AuthSettled (Inr (Some a)) # es1 @ Resume 0 # es2
            @ Call InitializeOtherResources # es3 @ [Resume 1]"
  have run: "run P ?evs (init w) = sE"
    by (simp add: sA_def sA'_def sB_def sB'_def sC_def sC'_def sD_def sD'_def sE_def
        run_append del: step.simps)
  from first_call_passing[OF gates, of InitializeRequiredResources]
  have A: "userDataSyncStoreClientPromise sA = PendingAuth st"
    "tasks sA = [AwaitClient [Settings, GlobalState] None]"
    "initialized sA = []" "reads sA = []"
    by (simp_all add: sA_def del: step.simps)
  from run_background[OF assms(4), of P sA 0 "[Settings, GlobalState]" None] A
  have A': "userDataSyncStoreClientPromise sA' = PendingAuth st"
    "length (tasks sA') = 1" "tasks sA' ! 0 = AwaitClient [Settings, GlobalState] None"
    "initialized sA' = []" "reads sA' = []"
    by (simp_all add: sA'_def)
  from auth_success[OF A'(1) assms(3)] A'
  have B: "userDataSyncStoreClientPromise sB = Fulfilled (Some c)"
    "length (tasks sB) = 1" "tasks sB ! 0 = AwaitClient [Settings, GlobalState] None"
    "initialized sB = []" "reads sB = []"
    by (simp_all add: sB_def authSettled_frame)
  from run_background[OF assms(5), of P sB 0 "[Settings, GlobalState]" None] B
  have B': "userDataSyncStoreClientPromise sB' = Fulfilled (Some c)"
    "0 < length (tasks sB')" "length (tasks sB') = 1"
    "tasks sB' ! 0 = AwaitClient [Settings, GlobalState] None"
    "initialized sB' = []" "reads sB' = []"
    by (simp_all add: sB'_def)
  from resume_required[OF B'(2,4,1,5,6), of P] B'(3)
  have C: "userDataSyncStoreClientPromise sC = Fulfilled (Some c)"
    "length (tasks sC) = 1"
    "initialized sC = [Settings, GlobalState]" "reads sC = [Settings, GlobalState]"
    by (simp_all add: sC_def del: step.simps)
  from run_background[OF assms(6), of P sC] C
  have C': "userDataSyncStoreClientPromise sC' = Fulfilled (Some c)"
    "length (tasks sC') = 1"
    "initialized sC' = [Settings, GlobalState]" "reads sC' = [Settings, GlobalState]"
    by (simp_all add: sC'_def)
  from C'(1) have "userDataSyncStoreClientPromise sC' \<noteq> Unset" by simp
  from later_call[OF this, of P InitializeOtherResources] C'
  have D: "userDataSyncStoreClientPromise sD = Fulfilled (Some c)"
    "length (tasks sD) = 2" "tasks sD ! 1 = AwaitClient [Keybindings, Snippets] None"
    "initialized sD = [Settings, GlobalState]" "reads sD = [Settings, GlobalState]"
    by (simp_all add: sD_def nth_append del: step.simps)
  from run_background[OF assms(7), of P sD 1 "[Keybindings, Snippets]" None] D
  have D': "userDataSyncStoreClientPromise sD' = Fulfilled (Some c)"
    "1 < length (tasks sD')" "tasks sD' ! 1 = AwaitClient [Keybindings, Snippets] None"
    "initialized sD' = [Settings, GlobalState]" "reads sD' = [Settings, GlobalState]"
    by (simp_all add: sD'_def)
  from resume_other_resources[OF D'(2,3,1,4,5), of P]
  have E: "initialized sE = [Settings, GlobalState, Keybindings, Snippets]"
    "reads sE = [Settings, GlobalState, Keybindings, Snippets]"
    by (simp_all add: sE_def del: step.simps)
  have "list_all noCapability ?evs"
    using assms(4-7) by (simp add: list_background_noCapability)
  from run_extensionsUnread[OF this init_extensionsUnread, of P w] run E(1)
  have sd: "seeded sE" by (simp add: seeded_def del: run.simps)
  have "list_all noCapability (Call InitializeRequiredResources # es)"
    using assms(8) by simp
  from run_seeded[OF this sd, of P] E(2)
  have F: "reads (run P (Call InitializeRequiredResources # es) sE)
            = [Settings, GlobalState, Keybindings, Snippets]"
    by (simp only:)
  have "run P (?evs @ Call InitializeRequiredResources # es) (init w)
          = run P (Call InitializeRequiredResources # es) sE"
    by (simp only: run_append run)
  with F E(2) run show ?thesis by (simp only: simp_thms)
qed

lemma resumed_pair_reads_once:
  assumes "F = evs1 @ Resume t1 # r1" and "F = evs2 @ Resume t2 # r2"
    and "t1 < length (tasks (run P evs1 (init w)))"
    and "tasks (run P evs1 (init w)) ! t1 = AwaitClient [Settings, GlobalState] i1"
    and "userDataSyncStoreClientPromise (run P evs1 (init w)) = Fulfilled (Some c1)"
    and "t2 < length (tasks (run P evs2 (init w)))"
    and "tasks (run P evs2 (init w)) ! t2 = AwaitClient [Keybindings, Snippets] i2"
    and "userDataSyncStoreClientPromise (run P evs2 (init w)) = Fulfilled (Some c2)"
    and "list_all noCapability F"
  shows "count_list (reads (run P F (init w))) k = (if k = Extensions then 0 else 1)"
    "list_all noCapability ext \<Longrightarrow> reads (run P (F @ ext) (init w)) = reads (run P F (init w))"
proof -
  let ?f = "run P F (init w)"
  have a: "count_list (reads ?f) Settings = 1" "count_list (reads ?f) GlobalState = 1"
    using resumed_reads_once[OF assms(3,4,5), of _ r1] assms(1) by simp_all
  have b: "count_list (reads ?f) Keybindings = 1" "count_list (reads ?f) Snippets = 1"
    using resumed_reads_once[OF assms(6,7,8), of _ r2] assms(2) by simp_all
  have u: "extensionsUnread ?f"
    by (rule run_extensionsUnread[OF assms(9) init_extensionsUnread])
  then have x: "count_list (reads ?f) Extensions = 0"
    by (simp add: extensionsUnread_def count_list_0_iff)
  from a b x show "count_list (reads ?f) k = (if k = Extensions then 0 else 1)"
    by (cases k) simp_all
  have g: "guarded ?f" by (rule run_guarded[OF init_guarded])
  have "\<And>j. count_list (reads ?f) j = 1 \<Longrightarrow> j \<in> set (initialized ?f)"
  proof -
    fix j assume "count_list (reads ?f) j = 1"
    then have "j \<in> set (reads ?f)" using count_list_0_iff[of "reads ?f" j] by auto
    with g show "j \<in> set (initialized ?f)" by (auto simp: guarded_def)
  qed
  with a b u have sd: "seeded ?f" by (simp add: seeded_def)
  show "reads (run P (F @ ext) (init w)) = reads ?f" if "list_all noCapability ext"
    using run_seeded[OF that sd, of P] by (simp add: run_append)
qed

text \<open>
  Claim C8, as amended. In a web session in which every check passes and the
  authentication gives a session, and in which the client is built from the endpoint
  without a throw (\<open>URI.parse\<close> accepts the URL, the constructor and
  \<open>setAuthToken\<close> return): the stored promise holds the client from the settling of
  the authentication on; \<open>initializeRequiredResources\<close> followed by
  \<open>initializeOtherResources\<close> reads \<open>Settings\<close>, \<open>GlobalState\<close>,
  \<open>Keybindings\<close> and \<open>Snippets\<close> once each and nothing else, whatever the outcomes
  of these reads and of the applies in between, and a further call of
  \<open>initializeRequiredResources\<close> reads nothing more. The same holds however the two
  calls interleave: in any sequence of events in which a call of each of the two entry
  points has resumed with a client, and \<open>initializeExtensions\<close> was not called with
  an instantiation service, each of the four resources has been read exactly once and
  \<open>Extensions\<close> not at all, and nothing more is read afterwards.
\<close>

theorem required_then_other_reads_once:
  assumes "spec_allPass (spec_gateChain P w)" and "syncStore w = Some st"
    and "buildClient P st a = Inr c"
  shows "(list_all notAuth es0 \<longrightarrow>
        userDataSyncStoreClientPromise
          (run P (Call ep # es0 @ AuthSettled (Inr (Some a)) # es1) (init w))
        = Fulfilled (Some c))
     \<and> (list_all background bs0 \<and> list_all background bs1 \<and> list_all background bs2
        \<and> list_all background bs3 \<and> list_all noCapability es \<longrightarrow>
        reads (run P (Call InitializeRequiredResources # bs0
            @ AuthSettled (Inr (Some a)) # bs1 @ Resume 0 # bs2
            @ Call InitializeOtherResources # bs3 @ [Resume 1]) (init w))
          = [Settings, GlobalState, Keybindings, Snippets]
        \<and> reads (run P ((Call InitializeRequiredResources # bs0
            @ AuthSettled (Inr (Some a)) # bs1 @ Resume 0 # bs2
            @ Call InitializeOtherResources # bs3 @ [Resume 1])
            @ Call InitializeRequiredResources # es) (init w))
          = [Settings, GlobalState, Keybindings, Snippets])
     \<and> (F = evs1 @ Resume t1 # r1 \<and> F = evs2 @ Resume t2 # r2
        \<and> t1 < length (tasks (run P evs1 (init w)))
        \<and> tasks (run P evs1 (init w)) ! t1 = AwaitClient [Settings, GlobalState] i1
        \<and> userDataSyncStoreClientPromise (run P evs1 (init w)) = Fulfilled (Some c1)
        \<and> t2 < length (tasks (run P evs2 (init w)))
        \<and> tasks (run P evs2 (init w)) ! t2 = AwaitClient [Keybindings, Snippets] i2
        \<and> userDataSyncStoreClientPromise (run P evs2 (init w)) = Fulfilled (Some c2)
        \<and> list_all noCapability F \<longrightarrow>
        count_list (reads (run P F (init w))) k = (if k = Extensions then 0 else 1)
        \<and> (list_all noCapability ext \<longrightarrow>
             reads (run P (F @ ext) (init w)) = reads (run P F (init w))))"
proof -
  have a: "list_all notAuth es0 \<longrightarrow>
        userDataSyncStoreClientPromise
          (run P (Call ep # es0 @ AuthSettled (Inr (Some a)) # es1) (init w))
        = Fulfilled (Some c)"
    using client_available[OF assms] by blast
  have b: "list_all background bs0 \<and> list_all background bs1 \<and> list_all background bs2
        \<and> list_all background bs3 \<and> list_all noCapability es \<longrightarrow>
        reads (run P (Call InitializeRequiredResources # bs0
            @ AuthSettled (Inr (Some a)) # bs1 @ Resume 0 # bs2
            @ Call InitializeOtherResources # bs3 @ [Resume 1]) (init w))
          = [Settings, GlobalState, Keybindings, Snippets]
        \<and> reads (run P ((Call InitializeRequiredResources # bs0
            @ AuthSettled (Inr (Some a)) # bs1 @ Resume 0 # bs2
            @ Call InitializeOtherResources # bs3 @ [Resume 1])
            @ Call InitializeRequiredResources # es) (init w))
          = [Settings, GlobalState, Keybindings, Snippets]"
    using sequential_scenario[OF assms] by blast
  have c: "F = evs1 @ Resume t1 # r1 \<and> F = evs2 @ Resume t2 # r2
        \<and> t1 < length (tasks (run P evs1 (init w)))
        \<and> tasks (run P evs1 (init w)) ! t1 = AwaitClient [Settings, GlobalState] i1
        \<and> userDataSyncStoreClientPromise (run P evs1 (init w)) = Fulfilled (Some c1)
        \<and> t2 < length (tasks (run P evs2 (init w)))
        \<and> tasks (run P evs2 (init w)) ! t2 = AwaitClient [Keybindings, Snippets] i2
        \<and> userDataSyncStoreClientPromise (run P evs2 (init w)) = Fulfilled (Some c2)
        \<and> list_all noCapability F \<longrightarrow>
        count_list (reads (run P F (init w))) k = (if k = Extensions then 0 else 1)
        \<and> (list_all noCapability ext \<longrightarrow>
             reads (run P (F @ ext) (init w)) = reads (run P F (init w)))"
    using resumed_pair_reads_once(1)[where F=F and ?evs1.0=evs1 and ?t1.0=t1 and ?r1.0=r1
        and ?evs2.0=evs2 and ?t2.0=t2 and ?r2.0=r2 and P=P and w=w and ?i1.0=i1 and ?i2.0=i2
        and ?c1.0=c1 and ?c2.0=c2 and k=k]
      resumed_pair_reads_once(2)[where F=F and ?evs1.0=evs1 and ?t1.0=t1 and ?r1.0=r1
        and ?evs2.0=evs2 and ?t2.0=t2 and ?r2.0=r2 and P=P and w=w and ?i1.0=i1 and ?i2.0=i2
        and ?c1.0=c1 and ?c2.0=c2 and ext=ext]
    by blast
  from a b c show ?thesis by blast
qed

theorem required_then_other_reads_once_witness:
  "spec_allPass (spec_gateChain webPlatform freshServices)
   \<and> userDataSyncStoreClientPromise
       (run webPlatform (Call InitializeRequiredResources # [Call InitializeOtherResources]
          @ AuthSettled (Inr (Some aSession)) # [Resume 1, Resume 0]) (init freshServices))
     = Fulfilled (Some \<lparr>endpoint = ''https://sync.example'', token = ''token'',
                          authProvider = ''provider''\<rparr>)
   \<and> reads (run webPlatform (Call InitializeRequiredResources # []
            @ AuthSettled (Inr (Some aSession)) # [] @ Resume 0
            # [ReadSettled 0 0 (Inr ''{}''), ReadSettled 0 1 (Inl ''network'')]
            @ Call InitializeOtherResources # [] @ [Resume 1]) (init freshServices))
          = [Settings, GlobalState, Keybindings, Snippets]
   \<and> reads (run webPlatform ((Call InitializeRequiredResources # []
            @ AuthSettled (Inr (Some aSession)) # [] @ Resume 0
            # [ReadSettled 0 0 (Inr ''{}''), ReadSettled 0 1 (Inl ''network'')]
            @ Call InitializeOtherResources # [] @ [Resume 1])
            @ Call InitializeRequiredResources # [Resume 2]) (init freshServices))
          = [Settings, GlobalState, Keybindings, Snippets]
   \<and> count_list (reads (run webPlatform
          [Call InitializeRequiredResources, Call InitializeOtherResources,
           AuthSettled (Inr (Some aSession)), Resume 1, Resume 0] (init freshServices)))
        Settings = 1
   \<and> reads (run webPlatform
          ([Call InitializeRequiredResources, Call InitializeOtherResources,
            AuthSettled (Inr (Some aSession)), Resume 1, Resume 0]
           @ [Call InitializeRequiredResources, Resume 2]) (init freshServices))
     = reads (run webPlatform
          [Call InitializeRequiredResources, Call InitializeOtherResources,
           AuthSettled (Inr (Some aSession)), Resume 1, Resume 0] (init freshServices))"
proof -
  let ?c = "\<lparr>endpoint = ''https://sync.example'', token = ''token'',
             authProvider = ''provider''\<rparr>"
  let ?F = "[Call InitializeRequiredResources, Call InitializeOtherResources,
             AuthSettled (Inr (Some aSession)), Resume 1, Resume 0]"
  let ?e1 = "[Call InitializeRequiredResources, Call InitializeOtherResources,
              AuthSettled (Inr (Some aSession)), Resume 1]"
  let ?e2 = "[Call InitializeRequiredResources, Call InitializeOtherResources,
              AuthSettled (Inr (Some aSession))]"
  have g: "spec_allPass (spec_gateChain webPlatform freshServices)"
    "syncStore freshServices = Some \<lparr>url = ''https://sync.example''\<rparr>"
    "buildClient webPlatform \<lparr>url = ''https://sync.example''\<rparr> aSession = Inr ?c"
    by (simp_all add: spec_gateChain_def sample_defs optional_def buildClient_def)
  have h: "list_all notAuth [Call InitializeOtherResources]"
    "list_all background [ReadSettled 0 0 (Inr ''{}''), ReadSettled 0 1 (Inl ''network'')]"
    "list_all noCapability [Resume 2]" "list_all noCapability ?F"
    "list_all noCapability [Call InitializeRequiredResources, Resume 2]"
    "?F = ?e1 @ Resume 0 # []" "?F = ?e2 @ Resume 1 # [Resume 0]"
    by simp_all
  have s: "0 < length (tasks (run webPlatform ?e1 (init freshServices)))"
    "tasks (run webPlatform ?e1 (init freshServices)) ! 0
       = AwaitClient [Settings, GlobalState] None"
    "userDataSyncStoreClientPromise (run webPlatform ?e1 (init freshServices))
       = Fulfilled (Some ?c)"
    "1 < length (tasks (run webPlatform ?e2 (init freshServices)))"
    "tasks (run webPlatform ?e2 (init freshServices)) ! 1
       = AwaitClient [Keybindings, Snippets] None"
    "userDataSyncStoreClientPromise (run webPlatform ?e2 (init freshServices))
       = Fulfilled (Some ?c)"
    by (simp_all add: sample_defs segment_defs)
  note t = required_then_other_reads_once[OF g,
      where ?es0.0 = "[Call InitializeOtherResources]" and ep = InitializeRequiredResources
        and ?es1.0 = "[Resume 1, Resume 0]"
        and ?bs0.0 = "[]" and ?bs1.0 = "[]"
        and ?bs2.0 = "[ReadSettled 0 0 (Inr ''{}''), ReadSettled 0 1 (Inl ''network'')]"
        and ?bs3.0 = "[]" and es = "[Resume 2]"
        and F = ?F and ?evs1.0 = ?e1 and ?t1.0 = 0 and ?r1.0 = "[]"
        and ?evs2.0 = ?e2 and ?t2.0 = 1 and ?r2.0 = "[Resume 0]"
        and ?i1.0 = None and ?i2.0 = None and ?c1.0 = ?c and ?c2.0 = ?c
        and k = Settings and ext = "[Call InitializeRequiredResources, Resume 2]"]
  from t g(1) h s show ?thesis by (simp del: run.simps)
qed

text \<open>
  The claim as stated fails where the building of the client throws: with the endpoint
  \<open>sync store://example\<close> every check passes and a session is obtained, yet the
  promise is rejected and the two calls read nothing.
\<close>

theorem required_then_other_counterexample:
  "spec_allPass (spec_gateChain strictPlatform misconfiguredServices)
   \<and> userDataSyncStoreClientPromise (run strictPlatform
        [Call InitializeRequiredResources, AuthSettled (Inr (Some aSession))]
        (init misconfiguredServices))
      = Rejected ''[UriError]: Scheme contains illegal characters.''
   \<and> reads (run strictPlatform
        [Call InitializeRequiredResources, AuthSettled (Inr (Some aSession)), Resume 0,
         Call InitializeOtherResources, Resume 1] (init misconfiguredServices)) = []"
  by (simp add: spec_gateChain_def sample_defs segment_defs)

end
